theory Spec2Isabelle
  imports Complex_Main "HOL-Library.Sublist" "HOL-Library.Multiset"
begin

section \<open>Data model\<close>

text \<open>
  The chat client keeps plain JavaScript objects. A message and a conversation are
  records with the fields the code reads and writes; a field the code leaves out of an
  object (\<open>content\<close> of a bot message, \<open>answer\<close> of a user message, \<open>isError\<close>
  before a failure) holds the falsy value of its type, which every test of the code
  (\<open>x && ...\<close>, \<open>x || ...\<close>) treats like the missing field. Strings are lists of code
  units. Payloads of the stream (table, chart, evidence) are JSON values, \<open>None\<close>
  standing for \<open>undefined\<close>.
\<close>

datatype json =
    JNull
  | JBool bool
  | JNum rat
  | JStr string
  | JArr "json list"
  | JObj "(string \<times> json) list"

datatype error = TypeError

record message =
  msg_id :: string
  role :: string
  content :: string
  answer :: string
  displayedAnswer :: string
  chart :: "json option"
  table :: "json option"
  evidence :: "json option"
  isStreaming :: bool
  isThinking :: bool
  isError :: bool
  timestamp :: string

record conversation =
  conv_id :: string
  title :: string
  createdAt :: string
  updatedAt :: string
  isPinned :: bool
  messageCount :: nat

text \<open>
  The partial objects passed to \<open>updateMessage\<close> and \<open>updateConversation\<close>: a field
  that is \<open>None\<close> is absent from the object, so the spread \<open>{...m, ...updates}\<close>
  keeps the old value.
\<close>

record updates =
  set_answer :: "string option"
  set_displayedAnswer :: "string option"
  set_table :: "json option option"
  set_chart :: "json option option"
  set_evidence :: "json option option"
  set_isStreaming :: "bool option"
  set_isThinking :: "bool option"
  set_isError :: "bool option"

definition no_updates :: updates where
  "no_updates = \<lparr>set_answer = None, set_displayedAnswer = None, set_table = None,
     set_chart = None, set_evidence = None, set_isStreaming = None,
     set_isThinking = None, set_isError = None\<rparr>"

definition overwrite :: "'a \<Rightarrow> 'a option \<Rightarrow> 'a" where
  "overwrite old new = (case new of None \<Rightarrow> old | Some v \<Rightarrow> v)"

definition apply_updates :: "message \<Rightarrow> updates \<Rightarrow> message" where
  "apply_updates m u =
     m\<lparr>answer := overwrite (answer m) (set_answer u),
       displayedAnswer := overwrite (displayedAnswer m) (set_displayedAnswer u),
       table := overwrite (table m) (set_table u),
       chart := overwrite (chart m) (set_chart u),
       evidence := overwrite (evidence m) (set_evidence u),
       isStreaming := overwrite (isStreaming m) (set_isStreaming u),
       isThinking := overwrite (isThinking m) (set_isThinking u),
       isError := overwrite (isError m) (set_isError u)\<rparr>"

record conv_updates =
  set_title :: "string option"
  set_isPinned :: "bool option"

definition apply_conv_updates :: "conversation \<Rightarrow> conv_updates \<Rightarrow> conversation" where
  "apply_conv_updates c u =
     c\<lparr>title := overwrite (title c) (set_title u),
       isPinned := overwrite (isPinned c) (set_isPinned u)\<rparr>"

text \<open>\<open>Array.prototype.findIndex\<close>: the first index whose element passes, \<open>None\<close> for -1.\<close>

fun findIndex :: "('a \<Rightarrow> bool) \<Rightarrow> 'a list \<Rightarrow> nat option" where
  "findIndex p [] = None"
| "findIndex p (x # xs) =
     (if p x then Some 0 else map_option Suc (findIndex p xs))"

text \<open>\<open>xs || []\<close>: an array is truthy, \<open>null\<close> is not.\<close>

definition or_empty :: "'a list option \<Rightarrow> 'a list" where
  "or_empty xs = (case xs of None \<Rightarrow> [] | Some l \<Rightarrow> l)"

section \<open>The localStorage service (services/storageService.js)\<close>

text \<open>
  A key of the store is read through \<open>JSON.parse\<close>, so an entry is modelled by what
  \<open>JSON.parse\<close> makes of it: \<open>Missing\<close> when \<open>getItem\<close> returns \<open>null\<close> (the argument
  is converted to the text \<open>null\<close>, which parses to \<open>null\<close>), \<open>Corrupt\<close> when the
  stored text is not JSON and the parse throws, \<open>Stored v\<close> when it is the text
  \<open>JSON.stringify\<close> wrote for \<open>v\<close>. The three families of keys (the conversation
  list, one message list per conversation id, the current id) are kept apart, as they are for
  the ids \<open>generateId\<close> produces.
\<close>

datatype 'a item = Missing | Corrupt | Stored 'a

record localStorage =
  ls_conversations :: "conversation list item"
  ls_messages :: "string \<Rightarrow> message list item"
  ls_current :: "string option"

text \<open>
  \<open>try { return JSON.parse(str) } catch (e) { return fallback }\<close>; the result \<open>None\<close>
  is JavaScript's \<open>null\<close>.
\<close>

fun safeJsonParse :: "'a item \<Rightarrow> 'a option \<Rightarrow> 'a option" where
  "safeJsonParse Missing fallback = None"
| "safeJsonParse Corrupt fallback = fallback"
| "safeJsonParse (Stored v) fallback = Some v"

definition storage_getConversations :: "localStorage \<Rightarrow> conversation list option" where
  "storage_getConversations ls = safeJsonParse (ls_conversations ls) (Some [])"

definition storage_getMessages :: "localStorage \<Rightarrow> string \<Rightarrow> message list option" where
  "storage_getMessages ls conversationId =
     safeJsonParse (ls_messages ls conversationId) (Some [])"

text \<open>
  \<open>getConversation\<close> calls \<open>conversations.find\<close> on what \<open>getConversations\<close> returned:
  on \<open>null\<close> that is a TypeError. The result pairs the metadata with the messages
  (\<open>{...metadata, messages}\<close>).
\<close>

definition storage_getConversation ::
  "localStorage \<Rightarrow> string \<Rightarrow> error + (conversation \<times> message list option) option" where
  "storage_getConversation ls i =
     (case storage_getConversations ls of
        None \<Rightarrow> Inl TypeError
      | Some conversations \<Rightarrow>
          (case find (\<lambda>c. conv_id c = i) conversations of
             None \<Rightarrow> Inr None
           | Some metadata \<Rightarrow>
               Inr (Some (metadata, safeJsonParse (ls_messages ls i) (Some [])))))"

definition storage_getCurrentConversationId :: "localStorage \<Rightarrow> string option" where
  "storage_getCurrentConversationId ls =
     (case ls_current ls of
        None \<Rightarrow> None
      | Some i \<Rightarrow> if i = [] then None else Some i)"

text \<open>\<open>if (id)\<close>: \<open>null\<close> and the empty string are falsy.\<close>

definition truthy_id :: "string option \<Rightarrow> bool" where
  "truthy_id i = (case i of None \<Rightarrow> False | Some s \<Rightarrow> s \<noteq> [])"

definition storage_setCurrentConversationId :: "string option \<Rightarrow> localStorage \<Rightarrow> localStorage" where
  "storage_setCurrentConversationId i ls =
     (if truthy_id i then ls\<lparr>ls_current := i\<rparr> else ls\<lparr>ls_current := None\<rparr>)"

text \<open>
  \<open>generateId()\<close> draws from \<open>Math.random\<close> and \<open>new Date().toISOString()\<close> reads the
  clock: the id drawn and the time read are arguments (\<open>newId\<close>, \<open>now\<close>).
\<close>

definition storage_createConversation ::
  "string \<Rightarrow> string \<Rightarrow> string \<Rightarrow> localStorage \<Rightarrow> conversation \<times> localStorage" where
  "storage_createConversation newId now ttl ls =
     (let conversations = or_empty (storage_getConversations ls);
          newConversation = \<lparr>conv_id = newId, title = take 50 ttl, createdAt = now,
            updatedAt = now, isPinned = False, messageCount = 0\<rparr>;
          ls1 = ls\<lparr>ls_conversations := Stored (newConversation # conversations)\<rparr>;
          ls2 = ls1\<lparr>ls_messages := (ls_messages ls1)(newId := Stored [])\<rparr>
      in (newConversation, ls2))"

definition storage_updateConversation ::
  "string \<Rightarrow> string \<Rightarrow> conv_updates \<Rightarrow> localStorage \<Rightarrow> conversation option \<times> localStorage" where
  "storage_updateConversation now i upd ls =
     (let conversations = or_empty (storage_getConversations ls) in
      case findIndex (\<lambda>c. conv_id c = i) conversations of
        None \<Rightarrow> (None, ls)
      | Some index \<Rightarrow>
          (let updated = (apply_conv_updates (conversations ! index) upd)\<lparr>updatedAt := now\<rparr>
           in (Some updated,
               ls\<lparr>ls_conversations := Stored (conversations[index := updated])\<rparr>)))"

definition storage_deleteConversation :: "string \<Rightarrow> localStorage \<Rightarrow> bool \<times> localStorage" where
  "storage_deleteConversation i ls =
     (let conversations = or_empty (storage_getConversations ls);
          filtered = filter (\<lambda>c. conv_id c \<noteq> i) conversations
      in if length filtered = length conversations then (False, ls)
         else
           (let ls1 = ls\<lparr>ls_conversations := Stored filtered\<rparr>;
                ls2 = ls1\<lparr>ls_messages := (ls_messages ls1)(i := Missing)\<rparr>;
                ls3 = (if storage_getCurrentConversationId ls2 = Some i
                       then storage_setCurrentConversationId None ls2 else ls2)
            in (True, ls3)))"

text \<open>The title \<open>addMessage\<close> derives from the first user message.\<close>

definition auto_title :: "string \<Rightarrow> string" where
  "auto_title c = take 50 c @ (if length c > 50 then ''...'' else [])"

text \<open>
  \<open>addMessage\<close>: \<open>messages.push\<close> on a \<open>null\<close> message list is a TypeError, raised
  before anything is written.
\<close>

definition storage_addMessage ::
  "string \<Rightarrow> string \<Rightarrow> string \<Rightarrow> message \<Rightarrow> localStorage \<Rightarrow> error + message \<times> localStorage" where
  "storage_addMessage newId now conversationId msg ls =
     (case safeJsonParse (ls_messages ls conversationId) (Some []) of
        None \<Rightarrow> Inl TypeError
      | Some messages \<Rightarrow>
          (let newMessage = msg\<lparr>msg_id := (if msg_id msg \<noteq> [] then msg_id msg else newId),
                 timestamp := (if timestamp msg \<noteq> [] then timestamp msg else now)\<rparr>;
               messages' = messages @ [newMessage];
               ls1 = ls\<lparr>ls_messages := (ls_messages ls)(conversationId := Stored messages')\<rparr>;
               conversations = or_empty (storage_getConversations ls1)
           in case findIndex (\<lambda>c. conv_id c = conversationId) conversations of
                None \<Rightarrow> Inr (newMessage, ls1)
              | Some convIndex \<Rightarrow>
                  (let c = conversations ! convIndex;
                       c1 = c\<lparr>messageCount := length messages', updatedAt := now\<rparr>;
                       c2 = (if title c1 = ''New Chat'' \<and> role msg = ''user'' \<and> content msg \<noteq> []
                             then c1\<lparr>title := auto_title (content msg)\<rparr> else c1)
                   in Inr (newMessage,
                        ls1\<lparr>ls_conversations := Stored (conversations[convIndex := c2])\<rparr>))))"

definition storage_updateMessage ::
  "string \<Rightarrow> string \<Rightarrow> updates \<Rightarrow> localStorage \<Rightarrow> error + message option \<times> localStorage" where
  "storage_updateMessage conversationId messageId upd ls =
     (case safeJsonParse (ls_messages ls conversationId) (Some []) of
        None \<Rightarrow> Inl TypeError
      | Some messages \<Rightarrow>
          (case findIndex (\<lambda>m. msg_id m = messageId) messages of
             None \<Rightarrow> Inr (None, ls)
           | Some index \<Rightarrow>
               (let m' = apply_updates (messages ! index) upd
                in Inr (Some m',
                     ls\<lparr>ls_messages := (ls_messages ls)(conversationId := Stored (messages[index := m']))\<rparr>))))"

section \<open>Grouping conversations by date (groupConversationsByDate)\<close>

text \<open>
  The four dates the groups are cut at (\<open>today\<close>, \<open>yesterday\<close>, \<open>lastWeek\<close>, \<open>lastMonth\<close>)
  are computed by the platform's calendar from \<open>new Date()\<close>; they are given as time values.
  \<open>new Date(conv.updatedAt)\<close> is the argument \<open>Date\<close>: the time value of a text, \<open>None\<close> for
  an invalid date, which compares false with everything.
\<close>

record groups =
  pinned :: "conversation list"
  today :: "conversation list"
  yesterday :: "conversation list"
  lastWeek :: "conversation list"
  lastMonth :: "conversation list"
  older :: "conversation list"

record cutoffs =
  cut_today :: int
  cut_yesterday :: int
  cut_lastWeek :: int
  cut_lastMonth :: int

definition no_groups :: groups where
  "no_groups = \<lparr>pinned = [], today = [], yesterday = [], lastWeek = [], lastMonth = [], older = []\<rparr>"

definition on_or_after :: "int option \<Rightarrow> int \<Rightarrow> bool" where
  "on_or_after d t = (case d of None \<Rightarrow> False | Some x \<Rightarrow> x \<ge> t)"

text \<open>The body of the \<open>forEach\<close>.\<close>

definition place :: "(string \<Rightarrow> int option) \<Rightarrow> cutoffs \<Rightarrow> groups \<Rightarrow> conversation \<Rightarrow> groups" where
  "place Date cuts g conv =
     (if isPinned conv then g\<lparr>pinned := pinned g @ [conv]\<rparr>
      else
        (let date = Date (updatedAt conv) in
         if on_or_after date (cut_today cuts) then g\<lparr>today := today g @ [conv]\<rparr>
         else if on_or_after date (cut_yesterday cuts) then g\<lparr>yesterday := yesterday g @ [conv]\<rparr>
         else if on_or_after date (cut_lastWeek cuts) then g\<lparr>lastWeek := lastWeek g @ [conv]\<rparr>
         else if on_or_after date (cut_lastMonth cuts) then g\<lparr>lastMonth := lastMonth g @ [conv]\<rparr>
         else g\<lparr>older := older g @ [conv]\<rparr>))"

text \<open>The argument \<open>None\<close> is \<open>null\<close> (or anything that is not an array).\<close>

definition groupConversationsByDate ::
  "(string \<Rightarrow> int option) \<Rightarrow> cutoffs \<Rightarrow> conversation list option \<Rightarrow> groups" where
  "groupConversationsByDate Date cuts conversations =
     (case conversations of
        None \<Rightarrow> no_groups
      | Some cs \<Rightarrow> foldl (place Date cuts) no_groups cs)"

definition all_groups :: "groups \<Rightarrow> conversation list" where
  "all_groups g = pinned g @ today g @ yesterday g @ lastWeek g @ lastMonth g @ older g"

section \<open>Paging a table (PaginatedTable in components/MessageBubble.jsx)\<close>

definition ROWS_PER_PAGE :: nat where
  "ROWS_PER_PAGE = 10"

definition totalPages :: "'a list \<Rightarrow> int" where
  "totalPages rows = \<lceil>real (length rows) / real ROWS_PER_PAGE\<rceil>"

text \<open>\<open>Array.prototype.slice(start, end)\<close>: a negative index counts from the end, and both
  are clamped to the array.\<close>

definition js_slice :: "'a list \<Rightarrow> int \<Rightarrow> int \<Rightarrow> 'a list" where
  "js_slice xs start fin =
     (let n = int (length xs);
          k = (if start < 0 then max (n + start) 0 else min start n);
          final = (if fin < 0 then max (n + fin) 0 else min fin n)
      in take (nat (final - k)) (drop (nat k) xs))"

definition currentRows :: "'a list \<Rightarrow> int \<Rightarrow> 'a list" where
  "currentRows rows currentPage =
     (let startIdx = (currentPage - 1) * int ROWS_PER_PAGE;
          endIdx = startIdx + int ROWS_PER_PAGE
      in js_slice rows startIdx endIdx)"

definition goToPage :: "'a list \<Rightarrow> int \<Rightarrow> int \<Rightarrow> int" where
  "goToPage rows page currentPage =
     (if page \<ge> 1 \<and> page \<le> totalPages rows then page else currentPage)"

section \<open>The conversation container (ConversationProvider)\<close>

text \<open>
  The state of the provider (\<open>conversations\<close>, \<open>currentConversationId\<close>, \<open>messages\<close>), the
  store behind it, and the state of the chat component that uses it (\<open>isLoading\<close>, the ref
  \<open>typingIntervalRef\<close>, and the browser's table of running intervals). A state variable
  can hold \<open>null\<close>: \<open>setMessages(conv.messages)\<close> and \<open>setConversations(storage.getConversations())\<close>
  pass on what the store returned.

  A callback made by \<open>useCallback\<close> reads the state variables of the render that made it, not
  the state as earlier calls of the same event have left it. Those captured values are
  arguments of the model: \<open>cur\<close> for \<open>currentConversationId\<close>, \<open>convs\<close> for \<open>conversations\<close>.
  The state the functions transform is the state with every update applied.
\<close>

record interval =
  iv_cur :: "string option"
  iv_msg :: string
  iv_answer :: string
  iv_index :: nat
  iv_delay :: nat

record app =
  conversations :: "conversation list option"
  currentConversationId :: "string option"
  messages :: "message list option"
  storage :: localStorage
  isLoading :: bool
  typingIntervalRef :: "nat option"
  intervals :: "(nat \<times> interval) list"
  next_interval :: nat
  cleanup_pending :: bool

definition welcome_text :: string where
  "welcome_text = ''Hello! I'' @ [CHR 0x27] @ ''m your intelligent financial assistant. '' @
     ''I can help you query financial data and loans information. How can I help you today?''"

definition welcomeMessage :: "string \<Rightarrow> message" where
  "welcomeMessage now = \<lparr>msg_id = ''welcome'', role = ''bot'', content = [],
     answer = welcome_text, displayedAnswer = welcome_text, chart = Some JNull,
     table = Some JNull, evidence = Some JNull, isStreaming = False, isThinking = False,
     isError = False, timestamp = now\<rparr>"

text \<open>
  \<open>createConversation\<close>: \<open>newId\<close> is the id \<open>generateId\<close> draws for the conversation.
  The welcome message has an id, so \<open>storage.addMessage\<close> draws none.
\<close>

definition createConversation ::
  "string \<Rightarrow> string \<Rightarrow> string \<Rightarrow> app \<Rightarrow> error + conversation \<times> app" where
  "createConversation newId now ttl s =
     (let (newConv, ls1) = storage_createConversation newId now ttl (storage s);
          ls2 = storage_setCurrentConversationId (Some (conv_id newConv)) ls1
      in case storage_addMessage [] now (conv_id newConv) (welcomeMessage now) ls2 of
           Inl e \<Rightarrow> Inl e
         | Inr (_, ls3) \<Rightarrow>
             Inr (newConv,
               s\<lparr>conversations := Some (newConv # or_empty (conversations s)),
                 currentConversationId := Some (conv_id newConv),
                 storage := ls3,
                 messages := Some [welcomeMessage now]\<rparr>))"

definition switchConversation :: "string option \<Rightarrow> string \<Rightarrow> app \<Rightarrow> error + app" where
  "switchConversation cur i s =
     (if Some i = cur then Inr s
      else
        (case storage_getConversation (storage s) i of
           Inl e \<Rightarrow> Inl e
         | Inr None \<Rightarrow> Inr s
         | Inr (Some (metadata, msgs)) \<Rightarrow>
             Inr (s\<lparr>currentConversationId := Some i,
                    storage := storage_setCurrentConversationId (Some i) (storage s),
                    messages := msgs\<rparr>)))"

text \<open>
  \<open>deleteConversation\<close> filters the captured \<open>conversations\<close> (a TypeError when that is
  \<open>null\<close>) to choose the conversation it switches to.
\<close>

definition deleteConversation ::
  "string option \<Rightarrow> conversation list option \<Rightarrow> string \<Rightarrow> app \<Rightarrow> error + app" where
  "deleteConversation cur convs i s =
     (let s1 = s\<lparr>storage := snd (storage_deleteConversation i (storage s)),
                 conversations := Some (filter (\<lambda>c. conv_id c \<noteq> i) (or_empty (conversations s)))\<rparr>
      in if Some i = cur then
           (case convs of
              None \<Rightarrow> Inl TypeError
            | Some cs \<Rightarrow>
                (let remaining = filter (\<lambda>c. conv_id c \<noteq> i) cs
                 in if length remaining > 0
                    then switchConversation cur (conv_id (hd remaining)) s1
                    else Inr (s1\<lparr>currentConversationId := None, messages := Some []\<rparr>)))
         else Inr s1)"

definition updateConversation ::
  "string \<Rightarrow> string \<Rightarrow> conv_updates \<Rightarrow> app \<Rightarrow> conversation option \<times> app" where
  "updateConversation now i upd s =
     (let (updated, ls1) = storage_updateConversation now i upd (storage s);
          s1 = s\<lparr>storage := ls1\<rparr>
      in case updated of
           None \<Rightarrow> (None, s1)
         | Some u \<Rightarrow>
             (Some u,
              s1\<lparr>conversations :=
                   Some (map (\<lambda>c. if conv_id c = i then u else c) (or_empty (conversations s)))\<rparr>))"

text \<open>
  \<open>addMessage\<close>: \<open>newConvId\<close> and \<open>newMsgId\<close> are the ids \<open>generateId\<close> draws for the
  conversation and, if the message has none, for the message. In the branch with a current
  conversation the state update spreads \<open>prev\<close> unguarded (\<open>[...prev, message]\<close>): a TypeError
  when the message list is \<open>null\<close>.
\<close>

definition addMessage ::
  "string option \<Rightarrow> string \<Rightarrow> string \<Rightarrow> string \<Rightarrow> message \<Rightarrow> app \<Rightarrow> error + app" where
  "addMessage cur newConvId newMsgId now msg s =
     (if \<not> truthy_id cur then
        (case createConversation newConvId now ''New Chat'' s of
           Inl e \<Rightarrow> Inl e
         | Inr (newConv, s1) \<Rightarrow>
             (case storage_addMessage newMsgId now (conv_id newConv) msg (storage s1) of
                Inl e \<Rightarrow> Inl e
              | Inr (_, ls2) \<Rightarrow>
                  (let s2 = s1\<lparr>storage := ls2,
                              messages := Some (or_empty (messages s1) @ [msg])\<rparr>
                   in Inr (if role msg = ''user'' \<and> content msg \<noteq> []
                           then s2\<lparr>conversations := Some (or_empty (storage_getConversations ls2))\<rparr>
                           else s2))))
      else
        (case storage_addMessage newMsgId now (the cur) msg (storage s) of
           Inl e \<Rightarrow> Inl e
         | Inr (_, ls1) \<Rightarrow>
             (case messages s of
                None \<Rightarrow> Inl TypeError
              | Some prev \<Rightarrow>
                  (let s1 = s\<lparr>storage := ls1, messages := Some (prev @ [msg])\<rparr>
                   in Inr (if role msg = ''user'' \<and> content msg \<noteq> []
                           then s1\<lparr>conversations := storage_getConversations ls1\<rparr>
                           else s1)))))"

definition updateMessage :: "string option \<Rightarrow> string \<Rightarrow> updates \<Rightarrow> app \<Rightarrow> error + app" where
  "updateMessage cur messageId upd s =
     (case (if truthy_id cur
            then map_sum id snd (storage_updateMessage (the cur) messageId upd (storage s))
            else Inr (storage s)) of
        Inl e \<Rightarrow> Inl e
      | Inr ls1 \<Rightarrow>
          Inr (s\<lparr>storage := ls1,
                 messages := Some (map (\<lambda>m. if msg_id m = messageId then apply_updates m upd else m)
                                    (or_empty (messages s)))\<rparr>))"

text \<open>
  The state before the provider's first effect has run, and that effect: it loads the list
  of the store (\<open>getConversations() || []\<close>) and, when the stored current id is truthy and
  in the list, restores that conversation and its messages. \<open>getConversation\<close> can throw.
\<close>

definition initial_app :: "localStorage \<Rightarrow> app" where
  "initial_app ls = \<lparr>conversations = Some [], currentConversationId = None, messages = Some [],
     storage = ls, isLoading = False, typingIntervalRef = None, intervals = [],
     next_interval = 1, cleanup_pending = False\<rparr>"

definition mount :: "localStorage \<Rightarrow> error + app" where
  "mount ls =
     (let loadedConversations = or_empty (storage_getConversations ls);
          s1 = (initial_app ls)\<lparr>conversations := Some loadedConversations\<rparr>;
          currentId = storage_getCurrentConversationId ls
      in if truthy_id currentId \<and> find (\<lambda>c. conv_id c = the currentId) loadedConversations \<noteq> None
         then
           (case storage_getConversation ls (the currentId) of
              Inl e \<Rightarrow> Inl e
            | Inr conv \<Rightarrow>
                (let s2 = s1\<lparr>currentConversationId := currentId\<rparr>
                 in case conv of
                      Some (metadata, Some msgs) \<Rightarrow> Inr (s2\<lparr>messages := Some msgs\<rparr>)
                    | _ \<Rightarrow> Inr s2))
         else Inr s1)"

section \<open>The asynchronous container and its backend service\<close>

text \<open>
  A second provider keeps the conversations on a server and awaits every call of its
  service. It has the same three state variables, so its state is an \<open>app\<close> as well; of
  \<open>localStorage\<close> its service uses the current id only.

  What the server answers is an input: \<open>fetch\<close> rejects (or reading the body does), or
  there is a response, \<open>ok\<close> or not, with its parsed body. The body of a conversation is a
  document: its \<open>_id\<close>, its metadata, and its messages (a list, or none), each with an \<open>_id\<close>
  of its own. A body that is \<open>null\<close> or another falsy value is \<open>None\<close>: reading \<open>_id\<close> of
  \<open>null\<close> throws into the \<open>catch\<close>, which returns \<open>null\<close>, and the callers test the result for
  truth. The conversations of the list have an \<open>id\<close>, as those of the synchronous provider.
\<close>

datatype 'a reply = Rejects | Reply bool 'a

record document =
  doc_underscore_id :: "string option"
  doc_conversation :: conversation
  doc_messages :: "(string option \<times> message) list option"

text \<open>
  \<open>getConversation\<close> of the backend service: \<open>null\<close> when the request fails or the response
  is not ok; otherwise the document, its \<open>id\<close> and the \<open>id\<close> of each message replaced by the
  \<open>_id\<close> where that is truthy.
\<close>

definition api_getConversation ::
  "document option reply \<Rightarrow> (conversation \<times> message list option) option" where
  "api_getConversation r =
     (case r of
        Rejects \<Rightarrow> None
      | Reply ok body \<Rightarrow>
          if \<not> ok then None
          else
            (case body of
               None \<Rightarrow> None
             | Some data \<Rightarrow>
                 Some ((doc_conversation data)
                         \<lparr>conv_id := (if truthy_id (doc_underscore_id data)
                                      then the (doc_underscore_id data)
                                      else conv_id (doc_conversation data))\<rparr>,
                       map_option
                         (map (\<lambda>(u, m). m\<lparr>msg_id := (if truthy_id u then the u else msg_id m)\<rparr>))
                         (doc_messages data))))"

text \<open>\<open>deleteConversation\<close> of the backend service returns whether the request succeeded.\<close>

definition api_deleteConversation :: "unit reply \<Rightarrow> bool" where
  "api_deleteConversation r = (case r of Rejects \<Rightarrow> False | Reply ok body \<Rightarrow> ok)"

definition api_setCurrentConversationId :: "string option \<Rightarrow> localStorage \<Rightarrow> localStorage" where
  "api_setCurrentConversationId i ls =
     (if truthy_id i then ls\<lparr>ls_current := i\<rparr> else ls\<lparr>ls_current := None\<rparr>)"

text \<open>
  \<open>switchConversation\<close> of the asynchronous provider; \<open>got\<close> is the answer to its request.
  When \<open>getConversation\<close> returns \<open>null\<close> it sets nothing. Nothing in its \<open>try\<close> throws.
\<close>

definition switchConversation_async ::
  "string option \<Rightarrow> document option reply \<Rightarrow> string \<Rightarrow> app \<Rightarrow> app" where
  "switchConversation_async cur got i s =
     (if Some i = cur then s
      else
        (case api_getConversation got of
           None \<Rightarrow> s
         | Some (metadata, msgs) \<Rightarrow>
             s\<lparr>currentConversationId := Some i,
               storage := api_setCurrentConversationId (Some i) (storage s),
               messages := Some (or_empty msgs)\<rparr>))"

text \<open>
  \<open>deleteConversationHandler\<close>; \<open>deleted\<close> is the answer to the DELETE request, whose result
  the handler does not look at, and \<open>got\<close> the answer to the request \<open>switchConversation\<close>
  makes. \<open>cur\<close> and \<open>convs\<close> are the captured \<open>currentConversationId\<close> and \<open>conversations\<close>;
  filtering a \<open>null\<close> list throws into the \<open>catch\<close> of the handler, which logs and returns.
\<close>

definition deleteConversationHandler ::
  "string option \<Rightarrow> conversation list option \<Rightarrow> unit reply \<Rightarrow> document option reply \<Rightarrow> string
     \<Rightarrow> app \<Rightarrow> app" where
  "deleteConversationHandler cur convs deleted got i s =
     (let success = api_deleteConversation deleted;
          s1 = s\<lparr>conversations := Some (filter (\<lambda>c. conv_id c \<noteq> i) (or_empty (conversations s)))\<rparr>
      in if Some i = cur then
           (case convs of
              None \<Rightarrow> s1
            | Some cs \<Rightarrow>
                (let remaining = filter (\<lambda>c. conv_id c \<noteq> i) cs
                 in if length remaining > 0
                    then switchConversation_async cur got (conv_id (hd remaining)) s1
                    else s1\<lparr>currentConversationId := None, messages := Some []\<rparr>))
         else s1)"

section \<open>Sending a message and reading the answer stream (sendMessage)\<close>

text \<open>
  \<open>String.prototype.trim\<close>, on the white space a string of 8-bit code units can hold.
\<close>

definition is_space :: "char \<Rightarrow> bool" where
  "is_space c = (c \<in> set [CHR 0x09, CHR 0x0A, CHR 0x0B, CHR 0x0C, CHR 0x0D, CHR 0x20, CHR 0xA0])"

definition trim :: "string \<Rightarrow> string" where
  "trim s = rev (dropWhile is_space (rev (dropWhile is_space s)))"

text \<open>\<open>chunk.split('\n')\<close>.\<close>

fun split_lines :: "string \<Rightarrow> string list" where
  "split_lines [] = [[]]"
| "split_lines (c # cs) =
     (if c = CHR 0x0A then [] # split_lines cs
      else (case split_lines cs of [] \<Rightarrow> [[c]] | l # ls \<Rightarrow> (c # l) # ls))"

text \<open>
  \<open>data.type\<close> and \<open>data.data\<close> on what \<open>JSON.parse\<close> returned: a TypeError on \<open>null\<close>,
  the last binding of the key in an object, \<open>undefined\<close> (\<open>None\<close>) on every other value.
\<close>

definition property :: "json \<Rightarrow> string \<Rightarrow> error + json option" where
  "property v k =
     (case v of
        JNull \<Rightarrow> Inl TypeError
      | JObj kvs \<Rightarrow> Inr (map_of (rev kvs) k)
      | _ \<Rightarrow> Inr None)"

text \<open>
  The answer of a message is text. A \<open>text\<close> frame stores its \<open>data\<close> as the answer; read
  as text, a string is itself and every other value is the empty text. For the falsy
  values (\<open>undefined\<close>, \<open>null\<close>, \<open>false\<close>, \<open>0\<close>) that is how every test of the code on
  \<open>answer\<close> treats them; a \<open>text\<close> frame carrying a number, an array or an object is outside
  what this model describes.
\<close>

definition text_of :: "json option \<Rightarrow> string" where
  "text_of v = (case v of Some (JStr txt) \<Rightarrow> txt | _ \<Rightarrow> [])"

text \<open>The \<open>switch (data.type)\<close>; \<open>cur\<close> is the conversation id \<open>updateMessage\<close> captured.\<close>

definition on_frame :: "string option \<Rightarrow> string \<Rightarrow> json \<Rightarrow> app \<Rightarrow> error + app" where
  "on_frame cur botMessageId data s =
     (case property data ''type'' of
        Inl e \<Rightarrow> Inl e
      | Inr ty \<Rightarrow>
          if ty = Some (JStr ''text'') then
            (case property data ''data'' of
               Inl e \<Rightarrow> Inl e
             | Inr d \<Rightarrow>
                 updateMessage cur botMessageId
                   (no_updates\<lparr>set_answer := Some (text_of d), set_isThinking := Some False,
                      set_isStreaming := Some True\<rparr>) s)
          else if ty = Some (JStr ''table'') then
            (case property data ''data'' of
               Inl e \<Rightarrow> Inl e
             | Inr d \<Rightarrow> updateMessage cur botMessageId (no_updates\<lparr>set_table := Some d\<rparr>) s)
          else if ty = Some (JStr ''chart'') then
            (case property data ''data'' of
               Inl e \<Rightarrow> Inl e
             | Inr d \<Rightarrow> updateMessage cur botMessageId (no_updates\<lparr>set_chart := Some d\<rparr>) s)
          else if ty = Some (JStr ''evidence'') then
            (case property data ''data'' of
               Inl e \<Rightarrow> Inl e
             | Inr d \<Rightarrow> updateMessage cur botMessageId (no_updates\<lparr>set_evidence := Some d\<rparr>) s)
          else if ty = Some (JStr ''done'') then
            updateMessage cur botMessageId
              (no_updates\<lparr>set_isStreaming := Some False, set_isThinking := Some False\<rparr>) s
          else Inr s)"

text \<open>
  One line of a chunk. \<open>JSON.parse\<close> is the argument \<open>JSON_parse\<close>, \<open>None\<close> when it throws a
  SyntaxError. The \<open>catch\<close> around the parse and the switch swallows whatever is thrown
  there and reports nothing.
\<close>

definition process_line ::
  "(string \<Rightarrow> json option) \<Rightarrow> string option \<Rightarrow> string \<Rightarrow> app \<Rightarrow> string \<Rightarrow> app" where
  "process_line JSON_parse cur botMessageId s line =
     (if prefix ''data: '' line then
        (case JSON_parse (drop 6 line) of
           None \<Rightarrow> s
         | Some data \<Rightarrow>
             (case on_frame cur botMessageId data s of
                Inl e \<Rightarrow> s
              | Inr s' \<Rightarrow> s'))
      else s)"

text \<open>
  What the network does is an input: \<open>fetch\<close> rejects, or resolves with a response that is
  \<open>ok\<close> or not and whose reader yields chunks (decoded text) until it is done or a read
  rejects. \<open>read_loop\<close> returns whether the loop ended by \<open>done\<close>, and the state reached.
\<close>

datatype read = Chunk string | ReadThrows

datatype fetched = FetchThrows | Response bool "read list"

fun read_loop ::
  "(string \<Rightarrow> json option) \<Rightarrow> string option \<Rightarrow> string \<Rightarrow> read list \<Rightarrow> app \<Rightarrow> bool \<times> app" where
  "read_loop JSON_parse cur botMessageId [] s = (True, s)"
| "read_loop JSON_parse cur botMessageId (ReadThrows # rs) s = (False, s)"
| "read_loop JSON_parse cur botMessageId (Chunk chunk # rs) s =
     read_loop JSON_parse cur botMessageId rs
       (foldl (process_line JSON_parse cur botMessageId) s (split_lines chunk))"

definition clearInterval :: "nat \<Rightarrow> app \<Rightarrow> app" where
  "clearInterval t s = s\<lparr>intervals := filter (\<lambda>(k, iv). k \<noteq> t) (intervals s)\<rparr>"

definition clear_typing :: "app \<Rightarrow> app" where
  "clear_typing s = (case typingIntervalRef s of None \<Rightarrow> s | Some t \<Rightarrow> clearInterval t s)"

text \<open>
  What the platform supplies during one call of \<open>sendMessage\<close>: the ids \<open>generateId\<close>
  draws (one for \<open>createConversation\<close>, one for each \<open>addMessage\<close>, should they create a
  conversation), \<open>Date.now()\<close> as text when the two messages are built, and the clock as an
  ISO text.
\<close>

record platform =
  id1 :: string
  id2 :: string
  id3 :: string
  user_ms :: string
  bot_ms :: string
  iso_now :: string

definition error_text :: string where
  "error_text = ''Sorry, a connection error occurred. Please try again.''"

definition error_updates :: updates where
  "error_updates = no_updates\<lparr>set_answer := Some error_text,
     set_displayedAnswer := Some error_text, set_isStreaming := Some False,
     set_isThinking := Some False, set_isError := Some True\<rparr>"

definition userMessage :: "platform \<Rightarrow> string \<Rightarrow> message" where
  "userMessage pf txt = \<lparr>msg_id = ''user-'' @ user_ms pf, role = ''user'', content = trim txt,
     answer = [], displayedAnswer = [], chart = None, table = None, evidence = None,
     isStreaming = False, isThinking = False, isError = False, timestamp = iso_now pf\<rparr>"

definition botMessage :: "platform \<Rightarrow> message" where
  "botMessage pf = \<lparr>msg_id = ''bot-'' @ bot_ms pf, role = ''bot'', content = [],
     answer = [], displayedAnswer = [], chart = Some JNull, table = Some JNull,
     evidence = Some JNull, isStreaming = False, isThinking = True, isError = False,
     timestamp = iso_now pf\<rparr>"

text \<open>
  \<open>sendMessage\<close>. \<open>loading\<close> and \<open>cur\<close> are the \<open>isLoading\<close> and \<open>currentConversationId\<close>
  of the render that made the callback; \<open>addMessage\<close> and \<open>updateMessage\<close> are the callbacks
  of that same render, so they are called with the same \<open>cur\<close>. The id \<open>convId\<close> the
  function computes is not used afterwards. A throw of \<open>addMessage\<close> is outside the
  \<open>try\<close>; everything from \<open>fetch\<close> on is inside it.
\<close>

definition sendMessage ::
  "(string \<Rightarrow> json option) \<Rightarrow> bool \<Rightarrow> string option \<Rightarrow> platform \<Rightarrow> string \<Rightarrow> fetched \<Rightarrow> app
     \<Rightarrow> error + app" where
  "sendMessage JSON_parse loading cur pf txt net s =
     (if trim txt = [] \<or> loading then Inr s
      else
        (let s0 = clear_typing s in
         case (if \<not> truthy_id cur
               then map_sum id snd (createConversation (id1 pf) (iso_now pf) ''New Chat'' s0)
               else Inr s0) of
           Inl e \<Rightarrow> Inl e
         | Inr s1 \<Rightarrow>
             (case addMessage cur (id2 pf) [] (iso_now pf) (userMessage pf txt) s1 of
                Inl e \<Rightarrow> Inl e
              | Inr s2 \<Rightarrow>
                  (case addMessage cur (id3 pf) [] (iso_now pf) (botMessage pf)
                          (s2\<lparr>isLoading := True\<rparr>) of
                     Inl e \<Rightarrow> Inl e
                   | Inr s4 \<Rightarrow>
                       (let botMessageId = ''bot-'' @ bot_ms pf;
                            (completed, s5) =
                              (case net of
                                 FetchThrows \<Rightarrow> (False, s4)
                               | Response ok reads \<Rightarrow>
                                   if ok then read_loop JSON_parse cur botMessageId reads s4
                                   else (False, s4))
                        in case (if completed then Inr s5
                                 else updateMessage cur botMessageId error_updates s5) of
                             Inl e \<Rightarrow> Inl e
                           | Inr s6 \<Rightarrow> Inr (s6\<lparr>isLoading := False\<rparr>))))))"

text \<open>The text a message bubble shows (MessageBubble): \<open>role === 'user' ? content : (answer || '')\<close>.\<close>

definition displayText :: "message \<Rightarrow> string" where
  "displayText m = (if role m = ''user'' then content m else (if answer m \<noteq> [] then answer m else []))"

section \<open>The typing animation (the effect of ChatApp)\<close>

text \<open>
  \<open>setInterval\<close> enters the callback in the browser's table of running intervals and
  returns its id, a positive number not in use; \<open>clearInterval\<close> removes it. The closure of
  the callback holds the \<open>updateMessage\<close> of the render (its conversation id \<open>iv_cur\<close>), the
  id and the answer of the message, and the counter \<open>currentIndex\<close>.
\<close>

definition setInterval :: "interval \<Rightarrow> app \<Rightarrow> nat \<times> app" where
  "setInterval iv s =
     (next_interval s,
      s\<lparr>intervals := intervals s @ [(next_interval s, iv)],
        next_interval := Suc (next_interval s)\<rparr>)"

text \<open>
  One run of the effect after a render in which \<open>messages\<close> changed: first the cleanup the
  previous run returned, if it returned one, then the body. \<open>cleanup_pending\<close> records
  whether this run returns a cleanup. Reading the last element of a \<open>null\<close> message list is
  a TypeError.
\<close>

definition typing_effect :: "app \<Rightarrow> error + app" where
  "typing_effect s =
     (let s0 = (if cleanup_pending s then clear_typing s else s) in
      case messages s0 of
        None \<Rightarrow> Inl TypeError
      | Some msgs \<Rightarrow>
          if msgs = [] then Inr (s0\<lparr>cleanup_pending := False\<rparr>)
          else
            (let lastMessage = last msgs in
             if role lastMessage \<noteq> ''bot'' then Inr (s0\<lparr>cleanup_pending := False\<rparr>)
             else if answer lastMessage \<noteq> []
                     \<and> displayedAnswer lastMessage \<noteq> answer lastMessage
                     \<and> isStreaming lastMessage then
               (let s1 = clear_typing s0;
                    currentIndex = (if displayedAnswer lastMessage \<noteq> []
                                    then length (displayedAnswer lastMessage) else 0);
                    (t, s2) = setInterval
                       \<lparr>iv_cur = currentConversationId s0, iv_msg = msg_id lastMessage,
                        iv_answer = answer lastMessage, iv_index = currentIndex,
                        iv_delay = 15\<rparr> s1
                in Inr (s2\<lparr>typingIntervalRef := Some t, cleanup_pending := True\<rparr>))
             else if \<not> isStreaming lastMessage \<and> answer lastMessage \<noteq> []
                     \<and> displayedAnswer lastMessage \<noteq> answer lastMessage then
               (case updateMessage (currentConversationId s0) (msg_id lastMessage)
                       (no_updates\<lparr>set_displayedAnswer := Some (answer lastMessage)\<rparr>) s0 of
                  Inl e \<Rightarrow> Inl e
                | Inr s1 \<Rightarrow> Inr (s1\<lparr>cleanup_pending := False\<rparr>))
             else Inr (s0\<lparr>cleanup_pending := False\<rparr>)))"

text \<open>
  The renders that follow a change of the message list: the effect runs, and runs once
  more if it changed the list itself (by showing the full answer).
\<close>

definition commit :: "app \<Rightarrow> error + app" where
  "commit s =
     (case typing_effect s of
        Inl e \<Rightarrow> Inl e
      | Inr s1 \<Rightarrow> if messages s1 = messages s then Inr s1 else typing_effect s1)"

text \<open>
  The callback of interval \<open>t\<close>; it does not run when the interval has been cleared. The
  result says whether it called \<open>updateMessage\<close>.
\<close>

definition on_tick :: "nat \<Rightarrow> app \<Rightarrow> error + bool \<times> app" where
  "on_tick t s =
     (case map_of (intervals s) t of
        None \<Rightarrow> Inr (False, s)
      | Some iv \<Rightarrow>
          if iv_index iv < length (iv_answer iv) then
            (let nextChars = js_slice (iv_answer iv) 0 (int (iv_index iv) + 1) in
             case updateMessage (iv_cur iv) (iv_msg iv)
                    (no_updates\<lparr>set_displayedAnswer := Some nextChars\<rparr>) s of
               Inl e \<Rightarrow> Inl e
             | Inr s1 \<Rightarrow>
                 Inr (True,
                   s1\<lparr>intervals :=
                        map (\<lambda>(k, v). if k = t then (k, v\<lparr>iv_index := iv_index v + 1\<rparr>) else (k, v))
                          (intervals s1)\<rparr>))
          else Inr (False, clear_typing s))"

text \<open>Interval \<open>t\<close> fires, and the renders its update causes follow.\<close>

definition tick :: "nat \<Rightarrow> app \<Rightarrow> error + app" where
  "tick t s =
     (case on_tick t s of
        Inl e \<Rightarrow> Inl e
      | Inr (updated, s1) \<Rightarrow> if updated then commit s1 else Inr s1)"

text \<open>The running interval fires (the first of the table, if several are running).\<close>

definition fire :: "app \<Rightarrow> error + app" where
  "fire s = (case intervals s of [] \<Rightarrow> Inr s | (t, iv) # rest \<Rightarrow> tick t s)"

fun fires :: "nat \<Rightarrow> app \<Rightarrow> error + app" where
  "fires 0 s = Inr s"
| "fires (Suc n) s = (case fire s of Inl e \<Rightarrow> Inl e | Inr s1 \<Rightarrow> fires n s1)"

section \<open>Notions used to state the properties\<close>

text \<open>
  A well-formed frame, as the stream protocol defines it: an object whose \<open>type\<close> is one of
  the five recognised names, a \<open>text\<close> frame carrying a string. \<open>frame_of\<close> reads a parsed
  value as such a frame; \<open>frame_updates\<close> is the update the protocol asks for.
\<close>

datatype frame = Text string | Table "json option" | Chart "json option"
  | Evidence "json option" | Done

definition frame_of :: "json \<Rightarrow> frame option" where
  "frame_of data =
     (case (property data ''type'', property data ''data'') of
        (Inr (Some (JStr ty)), Inr d) \<Rightarrow>
          if ty = ''text'' then (case d of Some (JStr txt) \<Rightarrow> Some (Text txt) | _ \<Rightarrow> None)
          else if ty = ''table'' then Some (Table d)
          else if ty = ''chart'' then Some (Chart d)
          else if ty = ''evidence'' then Some (Evidence d)
          else if ty = ''done'' then Some Done
          else None
      | _ \<Rightarrow> None)"

fun frame_updates :: "frame \<Rightarrow> updates" where
  "frame_updates (Text txt) = no_updates\<lparr>set_answer := Some txt, set_isThinking := Some False,
     set_isStreaming := Some True\<rparr>"
| "frame_updates (Table d) = no_updates\<lparr>set_table := Some d\<rparr>"
| "frame_updates (Chart d) = no_updates\<lparr>set_chart := Some d\<rparr>"
| "frame_updates (Evidence d) = no_updates\<lparr>set_evidence := Some d\<rparr>"
| "frame_updates Done = no_updates\<lparr>set_isStreaming := Some False, set_isThinking := Some False\<rparr>"

text \<open>
  The lines the loop sees (every chunk split at its newlines, up to the first failing read),
  and what the lines that start with the data marker parse to, read as frames.
\<close>

fun chunks_of :: "read list \<Rightarrow> string list" where
  "chunks_of [] = []"
| "chunks_of (Chunk c # rs) = c # chunks_of rs"
| "chunks_of (ReadThrows # rs) = []"

definition all_lines :: "read list \<Rightarrow> string list" where
  "all_lines rs = concat (map split_lines (chunks_of rs))"

definition frames_read :: "(string \<Rightarrow> json option) \<Rightarrow> string list \<Rightarrow> frame option list" where
  "frames_read JSON_parse ls =
     map (\<lambda>l. Option.bind (JSON_parse (drop 6 l)) frame_of) (filter (prefix ''data: '') ls)"

text \<open>
  The text of the stream is the chunks one after the other; its lines do not depend on
  where the reads cut it. The reads leave the frames uncut when the lines that begin with
  the data marker are the same in the chunks as in the whole text. So it is when the reads
  deliver whole lines: every chunk but the last is empty or ends with a newline.
\<close>

definition stream_text :: "read list \<Rightarrow> string" where
  "stream_text rs = concat (chunks_of rs)"

definition uncut :: "read list \<Rightarrow> bool" where
  "uncut rs =
     (filter (prefix ''data: '') (all_lines rs) =
      filter (prefix ''data: '') (split_lines (stream_text rs)))"

definition whole_lines :: "read list \<Rightarrow> bool" where
  "whole_lines rs = list_all (\<lambda>c. c = [] \<or> last c = CHR 0x0A) (butlast (chunks_of rs))"

text \<open>The data of the last \<open>text\<close> frame of a sequence.\<close>

fun last_text :: "frame list \<Rightarrow> string option" where
  "last_text [] = None"
| "last_text (Text txt # fs) = (case last_text fs of None \<Rightarrow> Some txt | Some t \<Rightarrow> Some t)"
| "last_text (f # fs) = last_text fs"

definition apply_frames :: "message \<Rightarrow> frame list \<Rightarrow> message" where
  "apply_frames m fs = foldl (\<lambda>m f. apply_updates m (frame_updates f)) m fs"

definition upd_msgs :: "string \<Rightarrow> updates \<Rightarrow> message list \<Rightarrow> message list" where
  "upd_msgs i u msgs = map (\<lambda>m. if msg_id m = i then apply_updates m u else m) msgs"

definition last_message :: "app \<Rightarrow> message option" where
  "last_message s =
     (case messages s of None \<Rightarrow> None | Some msgs \<Rightarrow> if msgs = [] then None else Some (last msgs))"

text \<open>
  The state in which the last message shows \<open>d\<close>: the ticks of the typing animation change
  the \<open>displayedAnswer\<close> of a message and nothing else of it.
\<close>

definition with_displayed :: "string \<Rightarrow> app \<Rightarrow> app" where
  "with_displayed d s =
     s\<lparr>messages := map_option
          (\<lambda>msgs. if msgs = [] then [] else butlast msgs @ [(last msgs)\<lparr>displayedAnswer := d\<rparr>])
          (messages s)\<rparr>"

definition ends_with :: "string \<Rightarrow> app \<Rightarrow> bool" where
  "ends_with b s =
     (case messages s of None \<Rightarrow> False | Some msgs \<Rightarrow> msgs \<noteq> [] \<and> msg_id (last msgs) = b)"

text \<open>
  When the calls a callback makes on the store do not throw. \<open>persisted cur s\<close>: the
  conversation \<open>updateMessage\<close> writes to, if it writes, has its message list in the store.
  \<open>can_add cur s\<close>: moreover the message list of the state is not \<open>null\<close>.
\<close>

definition persisted :: "string option \<Rightarrow> app \<Rightarrow> bool" where
  "persisted cur s = (if truthy_id cur then ls_messages (storage s) (the cur) \<noteq> Missing else True)"

definition can_add :: "string option \<Rightarrow> app \<Rightarrow> bool" where
  "can_add cur s =
     (if truthy_id cur then ls_messages (storage s) (the cur) \<noteq> Missing \<and> messages s \<noteq> None
      else True)"

text \<open>The network failed: \<open>fetch\<close> threw, the response was not ok, or a read threw.\<close>

definition failed :: "fetched \<Rightarrow> bool" where
  "failed net =
     (case net of FetchThrows \<Rightarrow> True | Response ok reads \<Rightarrow> \<not> ok \<or> ReadThrows \<in> set reads)"

text \<open>The part of \<open>sendMessage\<close> from \<open>fetch\<close> on, as a function of the state the two
  \<open>addMessage\<close> calls left.\<close>

definition finish ::
  "(string \<Rightarrow> json option) \<Rightarrow> string option \<Rightarrow> platform \<Rightarrow> fetched \<Rightarrow> app \<Rightarrow> error + app" where
  "finish JSON_parse cur pf net s4 =
     (let botMessageId = ''bot-'' @ bot_ms pf;
          (completed, s5) =
            (case net of
               FetchThrows \<Rightarrow> (False, s4)
             | Response ok reads \<Rightarrow>
                 if ok then read_loop JSON_parse cur botMessageId reads s4
                 else (False, s4))
      in case (if completed then Inr s5
               else updateMessage cur botMessageId error_updates s5) of
           Inl e \<Rightarrow> Inl e
         | Inr s6 \<Rightarrow> Inr (s6\<lparr>isLoading := False\<rparr>))"

text \<open>
  The conversation list of the state shows the conversations of the store: the same ids in
  the same order. The provider loads the list from the store and every operation changes
  both alike.
\<close>

definition in_sync :: "app \<Rightarrow> bool" where
  "in_sync s =
     (case conversations s of
        None \<Rightarrow> False
      | Some cs \<Rightarrow> map conv_id cs = map conv_id (or_empty (storage_getConversations (storage s))))"

text \<open>
  The store holds a list of conversations: the key is neither missing nor corrupt.
\<close>

definition listed :: "app \<Rightarrow> bool" where
  "listed s = (storage_getConversations (storage s) \<noteq> None)"

section \<open>Notions used to state the animation\<close>

text \<open>
  At most the interval the ref points to is running, and the effect that started it has
  left its cleanup: what holds whenever intervals are started by the effect only.
\<close>

definition single_timer :: "app \<Rightarrow> bool" where
  "single_timer s =
     (list_all (\<lambda>(k, iv). typingIntervalRef s = Some k) (intervals s)
      \<and> (intervals s = [] \<or> cleanup_pending s))"

text \<open>The renders after a change of the message list, followed by \<open>n\<close> ticks.\<close>

definition animate :: "nat \<Rightarrow> app \<Rightarrow> error + app" where
  "animate n s = (case commit s of Inl e \<Rightarrow> Inl e | Inr s1 \<Rightarrow> fires n s1)"

text \<open>The state the effect body sees: the cleanup of the previous run has been done.\<close>

definition before_effect :: "app \<Rightarrow> app" where
  "before_effect s = (if cleanup_pending s then clear_typing s else s)"

text \<open>
  The animation towards the answer \<open>a\<close> has shown \<open>k\<close> characters: the last message is a
  streaming bot message with answer \<open>a\<close> showing its first \<open>k\<close> characters; while
  characters are left, exactly one interval runs, the one the ref points to, at 15 ms, its
  counter at \<open>k\<close>; when none is left, no interval runs.
\<close>

definition typing :: "string \<Rightarrow> nat \<Rightarrow> app \<Rightarrow> bool" where
  "typing a k s =
     (case last_message s of
        None \<Rightarrow> False
      | Some m \<Rightarrow>
          role m = ''bot'' \<and> isStreaming m \<and> answer m = a \<and> displayedAnswer m = take k a
          \<and> k \<le> length a \<and> persisted (currentConversationId s) s
          \<and> (if k < length a
              then typingIntervalRef s \<noteq> None \<and> cleanup_pending s
                 \<and> intervals s = [(the (typingIntervalRef s),
                      \<lparr>iv_cur = currentConversationId s, iv_msg = msg_id m, iv_answer = a,
                       iv_index = k, iv_delay = 15\<rparr>)]
              else intervals s = []))"

text \<open>A message without what it displays.\<close>

definition undisplayed :: "message \<Rightarrow> message" where
  "undisplayed m = m\<lparr>displayedAnswer := []\<rparr>"

text \<open>
  What happens while \<open>sendMessage\<close> reads the stream: a read resolves with a chunk, whose
  lines the loop processes at once; the component renders and its effect runs; the running
  interval fires. \<open>happens\<close> runs a sequence of these from the state \<open>sendMessage\<close> is in when
  it starts to read; \<open>arrived\<close> is the chunks of the sequence, in order.
\<close>

datatype happening = Arrives string | Renders | Fires

fun happens ::
  "(string \<Rightarrow> json option) \<Rightarrow> string option \<Rightarrow> string \<Rightarrow> happening list \<Rightarrow> app \<Rightarrow> error + app" where
  "happens JSON_parse cur botMessageId [] s = Inr s"
| "happens JSON_parse cur botMessageId (Arrives chunk # hs) s =
     happens JSON_parse cur botMessageId hs
       (foldl (process_line JSON_parse cur botMessageId) s (split_lines chunk))"
| "happens JSON_parse cur botMessageId (Renders # hs) s =
     (case commit s of Inl e \<Rightarrow> Inl e | Inr s1 \<Rightarrow> happens JSON_parse cur botMessageId hs s1)"
| "happens JSON_parse cur botMessageId (Fires # hs) s =
     (case fire s of Inl e \<Rightarrow> Inl e | Inr s1 \<Rightarrow> happens JSON_parse cur botMessageId hs s1)"

fun arrived :: "happening list \<Rightarrow> string list" where
  "arrived [] = []"
| "arrived (Arrives chunk # hs) = chunk # arrived hs"
| "arrived (h # hs) = arrived hs"

text \<open>
  What holds of the state all the while: the conversations \<open>updateMessage\<close> writes to, from
  the loop (\<open>cur\<close>) and from the effect and the intervals (the current one), have their
  message lists in the store, the intervals of the table were started for the current
  conversation, and the message list ends with the bot message.
\<close>

definition steady :: "string option \<Rightarrow> string \<Rightarrow> app \<Rightarrow> bool" where
  "steady cur b s =
     (persisted cur s \<and> persisted (currentConversationId s) s
      \<and> (truthy_id cur \<longrightarrow> currentConversationId s = cur)
      \<and> list_all (\<lambda>(k, iv). iv_cur iv = currentConversationId s) (intervals s)
      \<and> ends_with b s)"

section \<open>Concrete stores and messages\<close>

text \<open>Inputs on which the theorems below are instantiated and the code is run.\<close>

definition empty_store :: localStorage where
  "empty_store = \<lparr>ls_conversations = Missing, ls_messages = (\<lambda>_. Missing), ls_current = None\<rparr>"

definition user_message :: "string \<Rightarrow> string \<Rightarrow> message" where
  "user_message i c = \<lparr>msg_id = i, role = ''user'', content = c, answer = [],
     displayedAnswer = [], chart = None, table = None, evidence = None, isStreaming = False,
     isThinking = False, isError = False, timestamp = ''t0''\<rparr>"

definition titles :: "localStorage \<Rightarrow> string list" where
  "titles ls = map title (or_empty (storage_getConversations ls))"

text \<open>The store a call leaves behind; a call that throws has written nothing.\<close>

definition store_after :: "error + 'a \<times> localStorage \<Rightarrow> localStorage \<Rightarrow> localStorage" where
  "store_after r ls = (case r of Inl _ \<Rightarrow> ls | Inr (_, ls') \<Rightarrow> ls')"

definition one_chat :: localStorage where
  "one_chat = snd (storage_createConversation ''c1'' ''t0'' ''New Chat'' empty_store)"

definition chat :: "string \<Rightarrow> string \<Rightarrow> bool \<Rightarrow> conversation" where
  "chat i t p = \<lparr>conv_id = i, title = ''New Chat'', createdAt = t, updatedAt = t,
     isPinned = p, messageCount = 0\<rparr>"

definition some_cutoffs :: cutoffs where
  "some_cutoffs = \<lparr>cut_today = 3000, cut_yesterday = 2000, cut_lastWeek = 1000, cut_lastMonth = 0\<rparr>"

definition some_Date :: "string \<Rightarrow> int option" where
  "some_Date t = (if t = ''d1'' then Some 3500 else if t = ''d2'' then Some 1500 else None)"

definition fresh_app :: app where
  "fresh_app = \<lparr>conversations = Some [], currentConversationId = None, messages = Some [],
     storage = empty_store, isLoading = False, typingIntervalRef = None, intervals = [],
     next_interval = 1, cleanup_pending = False\<rparr>"

definition some_platform :: platform where
  "some_platform = \<lparr>id1 = ''A'', id2 = ''B'', id3 = ''C'', user_ms = ''1'', bot_ms = ''2'',
     iso_now = ''t''\<rparr>"

text \<open>A \<open>JSON.parse\<close> for the lines used below; every other text is a SyntaxError.\<close>

definition some_parse :: "string \<Rightarrow> json option" where
  \<open>some_parse p =
     (if p = ''{"type":"text","data":"Hi"}'' then Some (JObj [(''type'', JStr ''text''), (''data'', JStr ''Hi'')])
      else if p = ''{"type":"text","data":"Hi there"}''
        then Some (JObj [(''type'', JStr ''text''), (''data'', JStr ''Hi there'')])
      else if p = ''{"type":"done"}'' then Some (JObj [(''type'', JStr ''done'')])
      else if p = ''{"type":"ping"}'' then Some (JObj [(''type'', JStr ''ping'')])
      else if p = ''null'' then Some JNull
      else None)\<close>

text \<open>The state an operation returned; the fresh state if it threw.\<close>

definition the_app :: "error + app \<Rightarrow> app" where
  "the_app r = (case r of Inl e \<Rightarrow> fresh_app | Inr s \<Rightarrow> s)"

definition two_chats :: app where
  "two_chats = the_app (map_sum id snd (createConversation ''c2'' ''t2'' ''New Chat''
     (the_app (map_sum id snd (createConversation ''c1'' ''t1'' ''New Chat'' fresh_app)))))"

definition line_hi :: string where
  \<open>line_hi = ''data: {"type":"text","data":"Hi"}''\<close>



definition line_ping :: string where
  \<open>line_ping = ''data: {"type":"ping"}''\<close>

definition line_cut :: string where
  \<open>line_cut = ''data: {"type":"te''\<close>


definition broken_reads :: "read list" where
  "broken_reads = [Chunk (line_hi @ [CHR 0x0A]), ReadThrows]"






text \<open>The first message typed into a fresh application, answered by an empty stream.\<close>

definition first_sent :: app where
  "first_sent = the_app (sendMessage some_parse False None some_platform ''hi''
     (Response True []) fresh_app)"


text \<open>A document of the server: the conversation \<open>c1\<close> with one message.\<close>

definition some_document :: document where
  "some_document = \<lparr>doc_underscore_id = Some ''c1'', doc_conversation = chat [] ''t1'' False,
     doc_messages = Some [(Some ''m1'', user_message [] ''hello'')]\<rparr>"

definition bot_msg :: "string \<Rightarrow> string \<Rightarrow> bool \<Rightarrow> message" where
  "bot_msg a d st = \<lparr>msg_id = ''bot-2'', role = ''bot'', content = [], answer = a,
     displayedAnswer = d, chart = Some JNull, table = Some JNull, evidence = Some JNull,
     isStreaming = st, isThinking = False, isError = False, timestamp = ''t''\<rparr>"

definition showing :: "string \<Rightarrow> string \<Rightarrow> bool \<Rightarrow> app" where
  "showing a d st = fresh_app\<lparr>messages := Some [user_message ''user-1'' ''hi'', bot_msg a d st]\<rparr>"

text \<open>What a state shows: answer and displayed answer of each message, and the ids of
  the running intervals.\<close>

definition shown :: "error + app \<Rightarrow> error + (string \<times> string) list \<times> nat list" where
  "shown r = map_sum id (\<lambda>s. (map (\<lambda>m. (answer m, displayedAnswer m)) (or_empty (messages s)),
      map fst (intervals s))) r"

definition typing_hello :: app where
  "typing_hello = the_app (animate 0 (showing ''hello'' ''he'' True))"

section \<open>Basic facts\<close>

lemma or_empty_simps [simp]: "or_empty None = []" "or_empty (Some l) = l"
  by (simp_all add: or_empty_def)

lemma findIndex_Some: "findIndex p xs = Some i \<Longrightarrow> i < length xs \<and> p (xs ! i)"
  by (induction xs arbitrary: i) (auto split: if_splits)

lemma findIndex_None: "findIndex p xs = None \<longleftrightarrow> (\<forall>x \<in> set xs. \<not> p x)"
  by (induction xs) auto

section \<open>Conversation titles\<close>

lemma auto_title_length: "length (auto_title c) \<le> 53"
  by (simp add: auto_title_def)

lemma create_title: "length (title (fst (storage_createConversation newId now ttl ls))) \<le> 50"
  by (simp add: storage_createConversation_def Let_def)

lemma create_titles:
  "titles (snd (storage_createConversation newId now ttl ls)) = take 50 ttl # titles ls"
  by (simp add: storage_createConversation_def Let_def titles_def storage_getConversations_def)

lemma titles_addMessage:
  "list_all2 (\<lambda>old new. new = old \<or> (old = ''New Chat'' \<and> new = auto_title (content msg)))
     (titles ls) (titles (store_after (storage_addMessage newId now cid msg ls) ls))"
proof (cases "safeJsonParse (ls_messages ls cid) (Some [])")
  case None
  then show ?thesis
    by (simp add: storage_addMessage_def store_after_def list_all2_conv_all_nth)
next
  case (Some messages)
  note parsed = this
  let ?cs = "or_empty (storage_getConversations ls)"
  show ?thesis
  proof (cases "findIndex (\<lambda>c. conv_id c = cid) ?cs")
    case None
    with parsed show ?thesis
      by (simp add: storage_addMessage_def store_after_def Let_def titles_def
          storage_getConversations_def list_all2_conv_all_nth)
  next
    case (Some k)
    then have k: "k < length ?cs" by (simp add: findIndex_Some)
    from Some parsed k show ?thesis
      by (simp add: storage_addMessage_def store_after_def Let_def titles_def
          storage_getConversations_def map_update list_all2_conv_all_nth nth_list_update)
  qed
qed

lemma title_updateConversation:
  "map_option title
     (fst (storage_updateConversation now i \<lparr>set_title = Some t, set_isPinned = p\<rparr> ls)) =
   (if findIndex (\<lambda>c. conv_id c = i) (or_empty (storage_getConversations ls)) = None
    then None else Some t)"
  by (auto simp: storage_updateConversation_def Let_def apply_conv_updates_def overwrite_def
      split: option.splits)

lemma titles_updateConversation:
  assumes "findIndex (\<lambda>c. conv_id c = i) (or_empty (storage_getConversations ls)) = Some k"
  shows "titles (snd (storage_updateConversation now i \<lparr>set_title = Some t, set_isPinned = p\<rparr> ls)) =
         (titles ls)[k := t]"
  using assms
  by (simp add: storage_updateConversation_def Let_def titles_def storage_getConversations_def
      apply_conv_updates_def overwrite_def map_update)

text \<open>
  C2, as stated, fails: a first user message of 51 characters gives the conversation a title
  of 53 characters (50 plus the ellipsis), and a rename to 60 characters is stored as it is.
\<close>

theorem C2_title_longer_than_50:
  "\<not> list_all (\<lambda>t. length t \<le> 50)
       (titles (store_after
          (storage_addMessage ''m'' ''t1'' ''c1'' (user_message ''u1'' (replicate 51 CHR ''a'')) one_chat)
          one_chat))
   \<and> \<not> list_all (\<lambda>t. length t \<le> 50)
       (titles (snd (storage_updateConversation ''t1'' ''c1''
          \<lparr>set_title = Some (replicate 60 CHR ''b''), set_isPinned = None\<rparr> one_chat)))"
  by code_simp

text \<open>
  C2, amended: \<open>createConversation\<close> stores the first 50 characters of the title it is given,
  so at most 50 characters. \<open>addMessage\<close> changes no title but that of a conversation still
  called \<open>New Chat\<close>, which becomes the first 50 characters of the user's message followed by
  \<open>...\<close> when the message is longer: at most 53 characters. \<open>updateConversation\<close> stores the
  title it is given, whatever its length.
\<close>

theorem C2_titles:
  "length (title (fst (storage_createConversation newId now ttl ls))) \<le> 50
   \<and> titles (snd (storage_createConversation newId now ttl ls)) = take 50 ttl # titles ls
   \<and> list_all2 (\<lambda>old new. new = old \<or> (old = ''New Chat'' \<and> new = auto_title (content msg)))
        (titles ls) (titles (store_after (storage_addMessage newId now cid msg ls) ls))
   \<and> length (auto_title (content msg)) \<le> 53
   \<and> map_option title
        (fst (storage_updateConversation now i \<lparr>set_title = Some t, set_isPinned = p\<rparr> ls)) =
      (if findIndex (\<lambda>c. conv_id c = i) (or_empty (storage_getConversations ls)) = None
       then None else Some t)"
  using create_title create_titles titles_addMessage auto_title_length title_updateConversation
  by blast

section \<open>Reading a store that is missing or corrupt\<close>

lemma safeJsonParse_Corrupt: "safeJsonParse Corrupt fallback = fallback"
  by simp

text \<open>
  C10 on the empty store (every \<open>getItem\<close> returns \<open>null\<close>): \<open>JSON.parse(null)\<close> does not
  throw, it returns \<open>null\<close>, so \<open>safeJsonParse\<close> returns \<open>null\<close> and not the fallback;
  \<open>getConversations\<close> and \<open>getMessages\<close> return \<open>null\<close>, not an array, and \<open>getConversation\<close>
  throws a TypeError.
\<close>

theorem C10_empty_store:
  "safeJsonParse (ls_conversations empty_store) (Some []) = None
   \<and> storage_getConversations empty_store = None
   \<and> storage_getMessages empty_store ''c1'' = None
   \<and> storage_getConversation empty_store ''c1'' = Inl TypeError"
  by (simp add: storage_getConversations_def storage_getMessages_def
      storage_getConversation_def empty_store_def)

section \<open>Grouping and paging lose nothing\<close>

lemma mset_place: "mset (all_groups (place Date cuts g conv)) = add_mset conv (mset (all_groups g))"
  by (simp add: place_def all_groups_def Let_def)

lemma mset_foldl_place:
  "mset (all_groups (foldl (place Date cuts) g cs)) = mset cs + mset (all_groups g)"
  by (induction cs arbitrary: g) (simp_all add: mset_place)

lemma mset_groups: "mset (all_groups (groupConversationsByDate Date cuts (Some cs))) = mset cs"
  by (simp add: groupConversationsByDate_def mset_foldl_place) (simp add: all_groups_def no_groups_def)

lemma totalPages_div: "totalPages rows = int ((length rows + 9) div 10)"
proof -
  have "\<lceil>real (length rows) / real ROWS_PER_PAGE\<rceil> =
        \<lceil>of_int (int (length rows)) / (of_int 10 :: real)\<rceil>"
    by (simp add: ROWS_PER_PAGE_def)
  also have "\<dots> = - (- int (length rows) div 10)"
    by (rule ceiling_divide_eq_div)
  also have "\<dots> = int ((length rows + 9) div 10)"
    by linarith
  finally show ?thesis by (simp add: totalPages_def)
qed

lemma currentRows_page:
  assumes "1 \<le> p"
  shows "currentRows rows p = take 10 (drop (nat ((p - 1) * 10)) rows)"
  using assms by (auto simp: currentRows_def js_slice_def Let_def ROWS_PER_PAGE_def min_def)

lemma concat_chunks: "concat (map (\<lambda>k. take m (drop (k * m) xs)) [0..<n]) = take (n * m) xs"
proof (induction n)
  case 0
  then show ?case by simp
next
  case (Suc n)
  have "take (n * m) xs @ take m (drop (n * m) xs) = take (n * m + m) xs"
    by (simp add: take_add)
  with Suc show ?case by (simp add: add.commute)
qed

lemma upto_as_upt: "[1..int n] = map (\<lambda>k. int k + 1) [0..<n]"
proof (induction n)
  case 0
  then show ?case by simp
next
  case (Suc n)
  have "[1..int (Suc n)] = [1..int n] @ [int n + 1]"
    by (simp add: upto_rec2 add.commute)
  with Suc show ?case by simp
qed

lemma pages_cover: "concat (map (currentRows rows) [1..totalPages rows]) = rows"
proof -
  let ?n = "(length rows + 9) div 10"
  have nat10: "nat (int k * 10) = k * 10" for k
    by (simp add: nat_mult_distrib)
  have "map (currentRows rows) [1..totalPages rows] =
        map (\<lambda>k. take 10 (drop (k * 10) rows)) [0..<?n]"
    by (simp add: totalPages_div upto_as_upt currentRows_page o_def nat10)
  then have "concat (map (currentRows rows) [1..totalPages rows]) = take (?n * 10) rows"
    by (simp add: concat_chunks)
  moreover have "length rows \<le> ?n * 10" by linarith
  ultimately show ?thesis by simp
qed

text \<open>
  C3: the six groups of \<open>groupConversationsByDate\<close>, taken together, hold exactly the
  conversations of the input, each as often as the input has it. Page \<open>p\<close> of a table, for
  \<open>p\<close> from 1 to the number of pages \<open>ceil(rows / 10)\<close>, shows the rows from index
  \<open>(p - 1) * 10\<close> up to \<open>p * 10\<close>, and the pages in order, put end to end, are the rows.
\<close>

theorem C3_groups_and_pages_partition:
  assumes "1 \<le> p" and "p \<le> totalPages rows"
  shows "mset (all_groups (groupConversationsByDate Date cuts (Some cs))) = mset cs
    \<and> currentRows rows p = take 10 (drop (nat ((p - 1) * 10)) rows)
    \<and> concat (map (currentRows rows) [1..totalPages rows]) = rows"
  using assms mset_groups currentRows_page pages_cover by blast

theorem C3_witness:
  "(1::int) \<le> 3 \<and> 3 \<le> totalPages [0..<25]
   \<and> mset (all_groups (groupConversationsByDate some_Date some_cutoffs
        (Some [chat ''a'' ''d1'' False, chat ''b'' ''d2'' False, chat ''c'' ''d1'' True]))) =
      mset [chat ''a'' ''d1'' False, chat ''b'' ''d2'' False, chat ''c'' ''d1'' True]
   \<and> currentRows [0..<25] 3 = [20, 21, 22, 23, 24]
   \<and> concat (map (currentRows [0..<25]) [1..totalPages [0..<25]]) = [0..<25]"
proof -
  have h: "(1::int) \<le> 3" "3 \<le> totalPages [0..<25]"
    by (simp_all add: totalPages_div)
  have "take 10 (drop (nat ((3 - 1) * 10)) [0..<25]) = [20, 21, 22, 23, 24]"
    by (simp add: upt_rec)
  with h C3_groups_and_pages_partition [OF h, of some_Date some_cutoffs
      "[chat ''a'' ''d1'' False, chat ''b'' ''d2'' False, chat ''c'' ''d1'' True]"]
  show ?thesis by simp
qed

section \<open>Updating a message\<close>

lemma msg_id_apply_updates [simp]: "msg_id (apply_updates m u) = msg_id m"
  by (simp add: apply_updates_def)

lemma role_apply_updates [simp]: "role (apply_updates m u) = role m"
  by (simp add: apply_updates_def)

lemma msg_id_apply_frames [simp]: "msg_id (apply_frames m fs) = msg_id m"
  unfolding apply_frames_def by (induction fs arbitrary: m) simp_all

lemma role_apply_frames [simp]: "role (apply_frames m fs) = role m"
  unfolding apply_frames_def by (induction fs arbitrary: m) simp_all

lemma apply_frames_Cons:
  "apply_frames m (f # fs) = apply_frames (apply_updates m (frame_updates f)) fs"
  by (simp add: apply_frames_def)

lemma storage_updateMessage_ok:
  assumes "ls_messages ls c \<noteq> Missing"
  shows "\<exists>r ls'. storage_updateMessage c i u ls = Inr (r, ls') \<and> ls_messages ls' c \<noteq> Missing
     \<and> ls_conversations ls' = ls_conversations ls \<and> ls_current ls' = ls_current ls"
proof (cases "ls_messages ls c")
  case Missing
  with assms show ?thesis by simp
next
  case Corrupt
  then show ?thesis by (simp add: storage_updateMessage_def)
next
  case (Stored ms)
  then show ?thesis
    by (cases "findIndex (\<lambda>m. msg_id m = i) ms") (simp_all add: storage_updateMessage_def Let_def)
qed

lemma updateMessage_ok:
  assumes "persisted cur s"
  shows "\<exists>s'. updateMessage cur i u s = Inr s'
     \<and> messages s' = Some (upd_msgs i u (or_empty (messages s)))
     \<and> persisted cur s'
     \<and> conversations s' = conversations s \<and> currentConversationId s' = currentConversationId s
     \<and> isLoading s' = isLoading s"
proof (cases "truthy_id cur")
  case True
  with assms have "ls_messages (storage s) (the cur) \<noteq> Missing" by (simp add: persisted_def)
  from storage_updateMessage_ok [OF this, of i u] obtain r ls' where
    "storage_updateMessage (the cur) i u (storage s) = Inr (r, ls')"
    "ls_messages ls' (the cur) \<noteq> Missing"
    by blast
  with True show ?thesis by (simp add: updateMessage_def persisted_def upd_msgs_def)
next
  case False
  then show ?thesis by (simp add: updateMessage_def persisted_def upd_msgs_def)
qed

lemma ends_with_upd:
  assumes "ends_with b s" and "messages s' = Some (upd_msgs i u (or_empty (messages s)))"
  shows "ends_with b s'"
  using assms by (auto simp: ends_with_def upd_msgs_def last_map split: option.splits)

section \<open>The lines of the stream\<close>

lemma on_frame_typed:
  "frame_of data = Some f \<Longrightarrow> on_frame cur b data s = updateMessage cur b (frame_updates f) s"
  unfolding frame_of_def on_frame_def
  by (auto split: sum.splits option.splits json.splits if_splits simp: text_of_def)

lemma on_frame_cases:
  assumes "on_frame cur b data s = Inr s'"
  shows "s' = s \<or> (\<exists>u. updateMessage cur b u s = Inr s')"
  using assms unfolding on_frame_def
  by (auto split: sum.splits if_splits)

lemma process_line_other: "\<not> prefix ''data: '' line \<Longrightarrow> process_line P cur b s line = s"
  by (simp add: process_line_def)

lemma process_line_typed:
  assumes "persisted cur s" and "prefix ''data: '' line"
    and "Option.bind (P (drop 6 line)) frame_of = Some f"
  shows "messages (process_line P cur b s line) =
           Some (upd_msgs b (frame_updates f) (or_empty (messages s)))
       \<and> persisted cur (process_line P cur b s line)"
proof -
  from assms(3) obtain data where d: "P (drop 6 line) = Some data" "frame_of data = Some f"
    by (auto simp: bind_eq_Some_conv)
  from updateMessage_ok [OF assms(1), of b "frame_updates f"] obtain s' where
    "updateMessage cur b (frame_updates f) s = Inr s'"
    "messages s' = Some (upd_msgs b (frame_updates f) (or_empty (messages s)))"
    "persisted cur s'"
    by auto
  with d assms(2) show ?thesis
    by (simp add: process_line_def on_frame_typed)
qed

lemma process_line_keeps:
  assumes "persisted cur s" and "ends_with b s"
  shows "persisted cur (process_line P cur b s line) \<and> ends_with b (process_line P cur b s line)"
proof (cases "prefix ''data: '' line")
  case False
  with assms show ?thesis by (simp add: process_line_def)
next
  case True
  show ?thesis
  proof (cases "P (drop 6 line)")
    case None
    with assms True show ?thesis by (simp add: process_line_def)
  next
    case (Some data)
    show ?thesis
    proof (cases "on_frame cur b data s")
      case (Inl e)
      with assms True Some show ?thesis by (simp add: process_line_def)
    next
      case (Inr s')
      then have pl: "process_line P cur b s line = s'"
        using True Some by (simp add: process_line_def)
      from on_frame_cases [OF Inr] show ?thesis
      proof
        assume "s' = s"
        with assms pl show ?thesis by simp
      next
        assume "\<exists>u. updateMessage cur b u s = Inr s'"
        then obtain u where u: "updateMessage cur b u s = Inr s'" ..
        from updateMessage_ok [OF assms(1), of b u] u
        have "messages s' = Some (upd_msgs b u (or_empty (messages s)))" "persisted cur s'"
          by auto
        with assms(2) pl show ?thesis by (auto intro: ends_with_upd)
      qed
    qed
  qed
qed

lemma foldl_process_keeps:
  assumes "persisted cur s" and "ends_with b s"
  shows "persisted cur (foldl (process_line P cur b) s ls)
     \<and> ends_with b (foldl (process_line P cur b) s ls)"
  using assms by (induction ls arbitrary: s) (simp_all add: process_line_keeps)

lemma foldl_process_typed:
  assumes "frames_read P ls = map Some fs" and "persisted cur s" and "messages s = Some msgs"
  shows "messages (foldl (process_line P cur b) s ls) =
           Some (map (\<lambda>m. if msg_id m = b then apply_frames m fs else m) msgs)
       \<and> persisted cur (foldl (process_line P cur b) s ls)"
  using assms
proof (induction ls arbitrary: s msgs fs)
  case Nil
  then have "fs = []" by (simp add: frames_read_def)
  with Nil show ?case by (simp add: apply_frames_def cong: if_cong)
next
  case (Cons l ls)
  show ?case
  proof (cases "prefix ''data: '' l")
    case False
    with Cons.prems have "frames_read P ls = map Some fs"
      by (simp add: frames_read_def)
    from Cons.IH [OF this Cons.prems(2) Cons.prems(3)] False show ?thesis
      by (simp add: process_line_other)
  next
    case True
    with Cons.prems(1) obtain f fs' where fs: "fs = f # fs'"
      and f: "Option.bind (P (drop 6 l)) frame_of = Some f"
      and rest: "frames_read P ls = map Some fs'"
      by (cases fs) (auto simp: frames_read_def)
    let ?s1 = "process_line P cur b s l"
    from process_line_typed [where P = P and line = l and b = b, OF Cons.prems(2) True f]
      Cons.prems(3)
    have m1: "messages ?s1 = Some (upd_msgs b (frame_updates f) msgs)" and p1: "persisted cur ?s1"
      by simp_all
    have "map (\<lambda>m. if msg_id m = b then apply_frames m fs' else m)
            (upd_msgs b (frame_updates f) msgs) =
          map (\<lambda>m. if msg_id m = b then apply_frames m fs else m) msgs"
      by (simp add: upd_msgs_def fs apply_frames_Cons cong: if_cong)
    with Cons.IH [OF rest p1 m1] show ?thesis by simp
  qed
qed

lemma read_loop_fold:
  "read_loop P cur b rs s = (ReadThrows \<notin> set rs, foldl (process_line P cur b) s (all_lines rs))"
proof (induction rs arbitrary: s)
  case Nil
  then show ?case by (simp add: all_lines_def)
next
  case (Cons r rs)
  then show ?case by (cases r) (simp_all add: all_lines_def)
qed

lemma answer_apply_frames:
  "answer (apply_frames m fs) = (case last_text fs of None \<Rightarrow> answer m | Some t \<Rightarrow> t)"
proof (induction fs arbitrary: m)
  case Nil
  then show ?case by (simp add: apply_frames_def)
next
  case (Cons f fs)
  then show ?case
    by (cases f) (simp_all add: apply_frames_Cons apply_updates_def overwrite_def no_updates_def
        split: option.splits)
qed

lemma streaming_apply_frames_Done: "isStreaming (apply_frames m (fs @ [Done])) = False"
  by (simp add: apply_frames_def apply_updates_def overwrite_def no_updates_def)

lemma last_text_Done: "last_text (fs @ [Done]) = last_text fs"
  by (induction fs rule: last_text.induct) simp_all

lemma thinking_apply_frames_Done: "isThinking (apply_frames m (fs @ [Done])) = False"
  by (simp add: apply_frames_def apply_updates_def overwrite_def no_updates_def)

lemma split_lines_not_Nil [simp]: "split_lines x \<noteq> []"
  by (induction x) (auto split: list.splits)

lemma split_lines_newline:
  "split_lines (x @ CHR 0x0A # y) = split_lines x @ split_lines y"
  by (induction x) (auto split: list.splits)

lemma not_data_Nil [simp]: "\<not> prefix ''data: '' []"
  by simp

lemma data_lines_whole:
  assumes "list_all (\<lambda>c. c = [] \<or> last c = CHR 0x0A) (butlast cs)"
  shows "filter (prefix ''data: '') (concat (map split_lines cs)) =
         filter (prefix ''data: '') (split_lines (concat cs))"
  using assms
proof (induction cs)
  case Nil
  then show ?case by simp
next
  case (Cons c cs)
  show ?case
  proof (cases "cs = []")
    case True
    then show ?thesis by simp
  next
    case False
    with Cons.prems have ok: "c = [] \<or> last c = CHR 0x0A"
      and rest: "list_all (\<lambda>c. c = [] \<or> last c = CHR 0x0A) (butlast cs)"
      by simp_all
    note IH = Cons.IH [OF rest]
    show ?thesis
    proof (cases "c = []")
      case True
      with IH show ?thesis by simp
    next
      case c: False
      with ok have "c = butlast c @ [CHR 0x0A]" by (metis append_butlast_last_id)
      then obtain x where x: "c = x @ [CHR 0x0A]" ..
      have "split_lines c = split_lines x @ [[]]"
        using split_lines_newline [of x "[]"] by (simp add: x)
      moreover have "split_lines (c @ concat cs) = split_lines x @ split_lines (concat cs)"
        using split_lines_newline [of x "concat cs"] by (simp add: x)
      ultimately show ?thesis using IH by simp
    qed
  qed
qed

lemma whole_lines_uncut: "whole_lines rs \<Longrightarrow> uncut rs"
  by (simp add: uncut_def all_lines_def stream_text_def whole_lines_def data_lines_whole)

lemma frames_uncut:
  "uncut rs \<Longrightarrow> frames_read P (all_lines rs) = frames_read P (split_lines (stream_text rs))"
  by (simp add: frames_read_def uncut_def)

text \<open>
  C6: a line that does not begin with \<open>data: \<close> is not parsed and leaves the state as it
  is; so does a line whose payload \<open>JSON.parse\<close> rejects, and a parsed frame whose \<open>type\<close>
  is not \<open>text\<close>, \<open>table\<close>, \<open>chart\<close>, \<open>evidence\<close> or \<open>done\<close> (a missing type and the value
  \<open>null\<close>, whose \<open>type\<close> cannot be read, included). \<open>process_line\<close> has no error result:
  nothing is reported.
\<close>

theorem C6_malformed_frames_are_skipped:
  "(\<not> prefix ''data: '' line \<longrightarrow> process_line P cur b s line = s)
   \<and> (P (drop 6 line) = None \<longrightarrow> process_line P cur b s line = s)
   \<and> (P (drop 6 line) = Some data
        \<and> property data ''type'' \<notin>
            Inr ` Some ` JStr ` {''text'', ''table'', ''chart'', ''evidence'', ''done''}
      \<longrightarrow> process_line P cur b s line = s)"
  by (auto simp: process_line_def on_frame_def split: sum.splits)

theorem C6_witness:
  "\<not> prefix ''data: '' ''event: ping''
   \<and> process_line some_parse None ''bot-2'' first_sent ''event: ping'' = first_sent
   \<and> some_parse (drop 6 line_cut) = None
   \<and> process_line some_parse None ''bot-2'' first_sent line_cut = first_sent
   \<and> some_parse (drop 6 line_ping) = Some (JObj [(''type'', JStr ''ping'')])
   \<and> process_line some_parse None ''bot-2'' first_sent line_ping = first_sent
   \<and> some_parse (drop 6 ''data: null'') = Some JNull
   \<and> process_line some_parse None ''bot-2'' first_sent ''data: null'' = first_sent"
proof -
  have a: "\<not> prefix ''data: '' ''event: ping''"
    by code_simp
  have b: "some_parse (drop 6 line_cut) = None"
    by code_simp
  have c: "some_parse (drop 6 line_ping) = Some (JObj [(''type'', JStr ''ping'')])"
    by code_simp
  have c': "property (JObj [(''type'', JStr ''ping'')]) ''type'' \<notin>
      Inr ` Some ` JStr ` {''text'', ''table'', ''chart'', ''evidence'', ''done''}"
    by (auto simp: property_def)
  have d: "some_parse (drop 6 ''data: null'') = Some JNull"
    by code_simp
  have d': "property JNull ''type'' \<notin>
      Inr ` Some ` JStr ` {''text'', ''table'', ''chart'', ''evidence'', ''done''}"
    by (auto simp: property_def)
  from a b c c' d d'
    C6_malformed_frames_are_skipped [of "''event: ping''" some_parse None "''bot-2''" first_sent]
    C6_malformed_frames_are_skipped [of line_cut some_parse None "''bot-2''" first_sent]
    C6_malformed_frames_are_skipped [of line_ping some_parse None "''bot-2''" first_sent
      "JObj [(''type'', JStr ''ping'')]"]
    C6_malformed_frames_are_skipped [of "''data: null''" some_parse None "''bot-2''" first_sent
      JNull]
  show ?thesis by blast
qed

section \<open>Sending a message\<close>

lemma storage_addMessage_ok:
  assumes "ls_messages ls c \<noteq> Missing"
  shows "\<exists>m' ls'. storage_addMessage n now c msg ls = Inr (m', ls') \<and> ls_messages ls' c \<noteq> Missing"
proof -
  from assms obtain ms where "safeJsonParse (ls_messages ls c) (Some []) = Some ms"
    by (cases "ls_messages ls c") auto
  then show ?thesis
    by (auto simp: storage_addMessage_def Let_def split: option.splits)
qed

lemma createConversation_ok:
  "\<exists>nc s'. createConversation n now ttl s = Inr (nc, s') \<and> conv_id nc = n
     \<and> messages s' = Some [welcomeMessage now] \<and> currentConversationId s' = Some n
     \<and> ls_messages (storage s') n \<noteq> Missing"
proof -
  let ?ls2 = "storage_setCurrentConversationId (Some n)
                (snd (storage_createConversation n now ttl (storage s)))"
  have "ls_messages ?ls2 n \<noteq> Missing"
    by (simp add: storage_setCurrentConversationId_def storage_createConversation_def Let_def)
  from storage_addMessage_ok [OF this, of "[]" now "welcomeMessage now"]
  obtain m' ls' where "storage_addMessage [] now n (welcomeMessage now) ?ls2 = Inr (m', ls')"
    "ls_messages ls' n \<noteq> Missing" by blast
  then show ?thesis
    by (simp add: createConversation_def storage_createConversation_def Let_def)
qed

lemma addMessage_ok:
  assumes "can_add cur s"
  shows "\<exists>s' pre. addMessage cur n k now msg s = Inr s' \<and> messages s' = Some (pre @ [msg])
     \<and> persisted cur s' \<and> can_add cur s'"
proof (cases "truthy_id cur")
  case False
  from createConversation_ok [of n now "''New Chat''" s] obtain nc s1 where
    c: "createConversation n now ''New Chat'' s = Inr (nc, s1)" "conv_id nc = n"
       "messages s1 = Some [welcomeMessage now]" "ls_messages (storage s1) n \<noteq> Missing"
    by blast
  from storage_addMessage_ok [OF c(4), of k now msg] obtain m' ls2 where
    "storage_addMessage k now n msg (storage s1) = Inr (m', ls2)" by blast
  with c False show ?thesis
    by (auto simp: addMessage_def Let_def persisted_def can_add_def)
next
  case True
  with assms obtain prev where
    p: "ls_messages (storage s) (the cur) \<noteq> Missing" "messages s = Some prev"
    by (auto simp: can_add_def)
  from storage_addMessage_ok [OF p(1), of k now msg] obtain m' ls1 where
    "storage_addMessage k now (the cur) msg (storage s) = Inr (m', ls1)"
    "ls_messages ls1 (the cur) \<noteq> Missing" by blast
  with p True show ?thesis
    by (auto simp: addMessage_def Let_def persisted_def can_add_def)
qed

lemma can_add_frame [simp]:
  "can_add cur (s\<lparr>isLoading := x\<rparr>) = can_add cur s"
  "can_add cur (clear_typing s) = can_add cur s"
  by (auto simp: can_add_def clear_typing_def clearInterval_def split: option.splits)

lemma sendMessage_start:
  assumes "trim txt \<noteq> []" and "\<not> loading" and "can_add cur s"
  shows "\<exists>s4 pre. messages s4 = Some (pre @ [botMessage pf]) \<and> persisted cur s4
     \<and> sendMessage P loading cur pf txt net s = finish P cur pf net s4"
proof -
  let ?s0 = "clear_typing s"
  obtain s1 where s1: "(if \<not> truthy_id cur
               then map_sum id snd (createConversation (id1 pf) (iso_now pf) ''New Chat'' ?s0)
               else Inr ?s0) = Inr s1" and a1: "can_add cur s1"
  proof (cases "truthy_id cur")
    case True
    with assms(3) that show ?thesis by simp
  next
    case False
    from createConversation_ok [of "id1 pf" "iso_now pf" "''New Chat''" ?s0]
    obtain nc s' where "createConversation (id1 pf) (iso_now pf) ''New Chat'' ?s0 = Inr (nc, s')"
      by blast
    with False that show ?thesis by (simp add: can_add_def)
  qed
  from addMessage_ok [OF a1, of "id2 pf" "[]" "iso_now pf" "userMessage pf txt"]
  obtain s2 where s2: "addMessage cur (id2 pf) [] (iso_now pf) (userMessage pf txt) s1 = Inr s2"
    and a2: "can_add cur s2" by blast
  from a2 have "can_add cur (s2\<lparr>isLoading := True\<rparr>)" by simp
  from addMessage_ok [OF this, of "id3 pf" "[]" "iso_now pf" "botMessage pf"]
  obtain s4 pre where
    s4: "addMessage cur (id3 pf) [] (iso_now pf) (botMessage pf) (s2\<lparr>isLoading := True\<rparr>) = Inr s4"
    and m4: "messages s4 = Some (pre @ [botMessage pf])" and p4: "persisted cur s4" by blast
  from assms(1,2) s1 s2 s4 have "sendMessage P loading cur pf txt net s = finish P cur pf net s4"
    by (simp add: sendMessage_def finish_def Let_def)
  with m4 p4 show ?thesis by blast
qed

lemma addMessage_current:
  assumes "can_add cur s" and "truthy_id cur \<longrightarrow> currentConversationId s = cur"
  shows "\<exists>s' pre. addMessage cur n k now msg s = Inr s' \<and> messages s' = Some (pre @ [msg])
     \<and> persisted cur s' \<and> can_add cur s' \<and> persisted (currentConversationId s') s'
     \<and> (truthy_id cur \<longrightarrow> currentConversationId s' = cur)"
proof (cases "truthy_id cur")
  case False
  from createConversation_ok [of n now "''New Chat''" s] obtain nc s1 where
    c: "createConversation n now ''New Chat'' s = Inr (nc, s1)" "conv_id nc = n"
       "messages s1 = Some [welcomeMessage now]" "ls_messages (storage s1) n \<noteq> Missing"
       "currentConversationId s1 = Some n"
    by blast
  from storage_addMessage_ok [OF c(4), of k now msg] obtain m' ls2 where
    "storage_addMessage k now n msg (storage s1) = Inr (m', ls2)" "ls_messages ls2 n \<noteq> Missing"
    by blast
  with c False show ?thesis
    by (auto simp: addMessage_def Let_def persisted_def can_add_def)
next
  case True
  with assms obtain prev where
    p: "ls_messages (storage s) (the cur) \<noteq> Missing" "messages s = Some prev"
      "currentConversationId s = cur"
    by (auto simp: can_add_def)
  from storage_addMessage_ok [OF p(1), of k now msg] obtain m' ls1 where
    "storage_addMessage k now (the cur) msg (storage s) = Inr (m', ls1)"
    "ls_messages ls1 (the cur) \<noteq> Missing" by blast
  with p True show ?thesis
    by (auto simp: addMessage_def Let_def persisted_def can_add_def)
qed

lemma sendMessage_begin:
  assumes "trim txt \<noteq> []" and "\<not> loading" and "can_add cur s"
    and "truthy_id cur \<longrightarrow> currentConversationId s = cur"
  shows "\<exists>s4 pre. messages s4 = Some (pre @ [botMessage pf]) \<and> persisted cur s4
     \<and> persisted (currentConversationId s4) s4
     \<and> (truthy_id cur \<longrightarrow> currentConversationId s4 = cur)
     \<and> sendMessage P loading cur pf txt net s = finish P cur pf net s4"
proof -
  let ?s0 = "clear_typing s"
  have cur0: "currentConversationId ?s0 = currentConversationId s"
    by (simp add: clear_typing_def clearInterval_def split: option.splits)
  obtain s1 where s1: "(if \<not> truthy_id cur
               then map_sum id snd (createConversation (id1 pf) (iso_now pf) ''New Chat'' ?s0)
               else Inr ?s0) = Inr s1" and a1: "can_add cur s1"
    and c1: "truthy_id cur \<longrightarrow> currentConversationId s1 = cur"
  proof (cases "truthy_id cur")
    case True
    with assms(3,4) cur0 that show ?thesis by simp
  next
    case False
    from createConversation_ok [of "id1 pf" "iso_now pf" "''New Chat''" ?s0]
    obtain nc s' where "createConversation (id1 pf) (iso_now pf) ''New Chat'' ?s0 = Inr (nc, s')"
      by blast
    with False that show ?thesis by (simp add: can_add_def)
  qed
  from addMessage_current [OF a1 c1, of "id2 pf" "[]" "iso_now pf" "userMessage pf txt"]
  obtain s2 where s2: "addMessage cur (id2 pf) [] (iso_now pf) (userMessage pf txt) s1 = Inr s2"
    and a2: "can_add cur s2" and c2: "truthy_id cur \<longrightarrow> currentConversationId s2 = cur" by blast
  from a2 have a2': "can_add cur (s2\<lparr>isLoading := True\<rparr>)" by simp
  from c2 have c2': "truthy_id cur \<longrightarrow> currentConversationId (s2\<lparr>isLoading := True\<rparr>) = cur" by simp
  from addMessage_current [OF a2' c2', of "id3 pf" "[]" "iso_now pf" "botMessage pf"]
  obtain s4 pre where
    s4: "addMessage cur (id3 pf) [] (iso_now pf) (botMessage pf) (s2\<lparr>isLoading := True\<rparr>) = Inr s4"
    and m4: "messages s4 = Some (pre @ [botMessage pf])" and p4: "persisted cur s4"
    and q4: "persisted (currentConversationId s4) s4"
    and c4: "truthy_id cur \<longrightarrow> currentConversationId s4 = cur" by blast
  from assms(1,2) s1 s2 s4 have "sendMessage P loading cur pf txt net s = finish P cur pf net s4"
    by (simp add: sendMessage_def finish_def Let_def)
  with m4 p4 q4 c4 show ?thesis by blast
qed

lemma updateMessage_current:
  assumes "updateMessage cur i u s = Inr s'"
  shows "currentConversationId s' = currentConversationId s
     \<and> (\<not> truthy_id cur \<longrightarrow> storage s' = storage s)"
  using assms by (auto simp: updateMessage_def split: sum.splits if_splits)

lemma process_line_current:
  "currentConversationId (process_line P cur b s l) = currentConversationId s
   \<and> (\<not> truthy_id cur \<longrightarrow> storage (process_line P cur b s l) = storage s)"
proof (cases "prefix ''data: '' l")
  case False
  then show ?thesis by (simp add: process_line_def)
next
  case True
  show ?thesis
  proof (cases "P (drop 6 l)")
    case None
    with True show ?thesis by (simp add: process_line_def)
  next
    case (Some data)
    show ?thesis
    proof (cases "on_frame cur b data s")
      case (Inl e)
      with True Some show ?thesis by (simp add: process_line_def)
    next
      case (Inr s')
      then have pl: "process_line P cur b s l = s'"
        using True Some by (simp add: process_line_def)
      from on_frame_cases [OF Inr] updateMessage_current [of cur b _ s s'] show ?thesis
        unfolding pl by blast
    qed
  qed
qed


text \<open>
  C7: \<open>sendMessage\<close> is called with a message that is not blank while nothing is loading
  and its \<open>addMessage\<close> calls can write, and the network fails: \<open>fetch\<close> throws, or the
  response is not ok, or a read of the stream throws (after any number of chunks). Then
  \<open>sendMessage\<close> returns and the bot message, the last of the list, has the fixed apology as
  its \<open>answer\<close> and its \<open>displayedAnswer\<close>, is neither streaming nor thinking, and is marked
  as an error.
\<close>

theorem C7_network_failure_rewrites_placeholder:
  assumes "trim txt \<noteq> []" and "\<not> loading" and "can_add cur s" and "failed net"
  shows "\<exists>s' m. sendMessage P loading cur pf txt net s = Inr s'
     \<and> last_message s' = Some m \<and> msg_id m = ''bot-'' @ bot_ms pf
     \<and> answer m = ''Sorry, a connection error occurred. Please try again.''
     \<and> displayedAnswer m = ''Sorry, a connection error occurred. Please try again.''
     \<and> \<not> isStreaming m \<and> \<not> isThinking m \<and> isError m"
proof -
  let ?b = "''bot-'' @ bot_ms pf"
  from sendMessage_start [OF assms(1-3)] obtain s4 pre where
    m4: "messages s4 = Some (pre @ [botMessage pf])" and p4: "persisted cur s4"
    and run: "sendMessage P loading cur pf txt net s = finish P cur pf net s4"
    by blast
  from m4 have e4: "ends_with ?b s4" by (simp add: ends_with_def botMessage_def)
  obtain s5 where s5: "persisted cur s5" "ends_with ?b s5"
    and fin: "finish P cur pf net s4 =
      (case updateMessage cur ?b error_updates s5 of
         Inl e \<Rightarrow> Inl e | Inr s6 \<Rightarrow> Inr (s6\<lparr>isLoading := False\<rparr>))"
  proof (cases net)
    case FetchThrows
    with p4 e4 that [of s4] show ?thesis by (simp add: finish_def)
  next
    case (Response ok reads)
    show ?thesis
    proof (cases ok)
      case False
      with Response p4 e4 that [of s4] show ?thesis by (simp add: finish_def)
    next
      case True
      with Response assms(4) have "ReadThrows \<in> set reads" by (simp add: failed_def)
      with True Response foldl_process_keeps [OF p4 e4, of P "all_lines reads"]
        that [of "foldl (process_line P cur ?b) s4 (all_lines reads)"]
      show ?thesis by (simp add: finish_def read_loop_fold Let_def)
    qed
  qed
  from updateMessage_ok [OF s5(1), of ?b error_updates] obtain s6 where
    u: "updateMessage cur ?b error_updates s5 = Inr s6"
    and m6: "messages s6 = Some (upd_msgs ?b error_updates (or_empty (messages s5)))"
    by blast
  from s5(2) obtain msgs where ms: "messages s5 = Some msgs" "msgs \<noteq> []" "msg_id (last msgs) = ?b"
    by (auto simp: ends_with_def split: option.splits)
  let ?m = "apply_updates (last msgs) error_updates"
  from m6 ms have "last_message (s6\<lparr>isLoading := False\<rparr>) = Some ?m"
    by (simp add: last_message_def last_map upd_msgs_def)
  moreover have "answer ?m = error_text \<and> displayedAnswer ?m = error_text
     \<and> \<not> isStreaming ?m \<and> \<not> isThinking ?m \<and> isError ?m \<and> msg_id ?m = ?b"
    using ms(3) by (simp add: apply_updates_def error_updates_def no_updates_def overwrite_def)
  ultimately show ?thesis using run fin u by (auto simp: error_text_def)
qed

theorem C7_witness:
  "trim ''hi'' \<noteq> [] \<and> can_add None fresh_app \<and> failed (Response True broken_reads)
   \<and> (\<exists>s' m. sendMessage some_parse False None some_platform ''hi'' (Response True broken_reads)
                fresh_app = Inr s'
        \<and> last_message s' = Some m \<and> msg_id m = ''bot-'' @ bot_ms some_platform
        \<and> answer m = ''Sorry, a connection error occurred. Please try again.''
        \<and> displayedAnswer m = ''Sorry, a connection error occurred. Please try again.''
        \<and> \<not> isStreaming m \<and> \<not> isThinking m \<and> isError m)"
proof -
  have h1: "trim ''hi'' \<noteq> []" by code_simp
  have h2: "\<not> False" by simp
  have h3: "can_add None fresh_app" by (simp add: can_add_def truthy_id_def)
  have h4: "failed (Response True broken_reads)" by (simp add: failed_def broken_reads_def)
  from C7_network_failure_rewrites_placeholder [OF h1 h2 h3 h4, of some_parse some_platform]
    h1 h3 h4
  show ?thesis by blast
qed

text \<open>
  C8 on the first message of a fresh application (no conversation, nothing stored):
  \<open>sendMessage\<close> creates a conversation, and each of its two \<open>addMessage\<close> calls, made with
  the \<open>currentConversationId\<close> of the render before the event (\<open>null\<close>), creates another.
  Three conversations exist afterwards; the user's message is stored in the second, the bot
  message in the third, which is current; the message list shows the welcome message and
  the bot message only.
\<close>

theorem C8_first_message_creates_three_conversations:
  "map conv_id (or_empty (conversations first_sent)) = [''C'', ''B'', ''A'']
   \<and> map conv_id (or_empty (storage_getConversations (storage first_sent))) = [''C'', ''B'', ''A'']
   \<and> currentConversationId first_sent = Some ''C''
   \<and> map msg_id (or_empty (messages first_sent)) = [''welcome'', ''bot-2'']
   \<and> map msg_id (or_empty (storage_getMessages (storage first_sent) ''A'')) = [''welcome'']
   \<and> map msg_id (or_empty (storage_getMessages (storage first_sent) ''B'')) =
       [''welcome'', ''user-1'']
   \<and> map msg_id (or_empty (storage_getMessages (storage first_sent) ''C'')) =
       [''welcome'', ''bot-2'']"
  by code_simp

section \<open>Deleting a conversation\<close>

lemma filter_same_length: "length (filter P xs) = length xs \<Longrightarrow> filter P xs = xs"
  by (metis filter_True length_filter_less linorder_neq_iff)

lemma stored_after_delete:
  "or_empty (storage_getConversations (snd (storage_deleteConversation i ls))) =
   filter (\<lambda>c. conv_id c \<noteq> i) (or_empty (storage_getConversations ls))"
  by (auto simp: storage_deleteConversation_def Let_def storage_getConversations_def
      storage_setCurrentConversationId_def filter_same_length)

lemma find_hd_filter:
  assumes "filter P xs \<noteq> []"
  shows "find P xs = Some (hd (filter P xs))"
  using assms by (induction xs) auto

lemma getConversation_found:
  assumes "r \<in> conv_id ` set (or_empty (storage_getConversations ls))"
  shows "\<exists>meta. storage_getConversation ls r = Inr (Some (meta, storage_getMessages ls r))"
proof -
  from assms obtain cs where some: "storage_getConversations ls = Some cs"
    by (cases "storage_getConversations ls") auto
  with assms have "filter (\<lambda>c. conv_id c = r) cs \<noteq> []"
    by (auto simp: filter_empty_conv)
  then have "find (\<lambda>c. conv_id c = r) cs = Some (hd (filter (\<lambda>c. conv_id c = r) cs))"
    by (rule find_hd_filter)
  with some show ?thesis
    by (simp add: storage_getConversation_def storage_getMessages_def)
qed

lemma map_filter_ids:
  "map conv_id xs = map conv_id ys \<Longrightarrow>
   map conv_id (filter (\<lambda>c. conv_id c \<noteq> i) xs) = map conv_id (filter (\<lambda>c. conv_id c \<noteq> i) ys)"
proof (induction xs arbitrary: ys)
  case Nil
  then show ?case by simp
next
  case (Cons x xs)
  then obtain y ys' where "ys = y # ys'" by (cases ys) auto
  with Cons show ?case by auto
qed

lemma delete_current:
  assumes sync: "in_sync s" and cur: "currentConversationId s = Some i"
  defines "remaining \<equiv> filter (\<lambda>c. conv_id c \<noteq> i) (or_empty (conversations s))"
  shows "\<exists>s'. deleteConversation (currentConversationId s) (conversations s) i s = Inr s'
     \<and> conversations s' = Some remaining
     \<and> (if remaining = [] then currentConversationId s' = None \<and> messages s' = Some []
         else currentConversationId s' = Some (conv_id (hd remaining))
            \<and> messages s' = storage_getMessages (storage s') (conv_id (hd remaining)))"
proof -
  from sync obtain cs where cs: "conversations s = Some cs"
    and ids: "map conv_id cs = map conv_id (or_empty (storage_getConversations (storage s)))"
    by (auto simp: in_sync_def split: option.splits)
  have rem: "remaining = filter (\<lambda>c. conv_id c \<noteq> i) cs"
    by (simp add: remaining_def cs)
  let ?ls1 = "snd (storage_deleteConversation i (storage s))"
  show ?thesis
  proof (cases "remaining = []")
    case True
    with cs cur rem show ?thesis
      by (simp add: deleteConversation_def Let_def)
  next
    case False
    let ?r = "conv_id (hd remaining)"
    from False have hd_in: "hd remaining \<in> set remaining" by simp
    then have r_ne: "?r \<noteq> i" by (auto simp: rem)
    have "map conv_id remaining = map conv_id (or_empty (storage_getConversations ?ls1))"
      unfolding rem stored_after_delete using ids by (rule map_filter_ids)
    with hd_in have "?r \<in> conv_id ` set (or_empty (storage_getConversations ?ls1))"
      by (metis image_eqI list.set_map)
    then obtain meta where found:
      "storage_getConversation ?ls1 ?r = Inr (Some (meta, storage_getMessages ?ls1 ?r))"
      using getConversation_found by blast
    have "storage_getMessages (storage_setCurrentConversationId (Some ?r) ?ls1) ?r =
          storage_getMessages ?ls1 ?r"
      by (simp add: storage_getMessages_def storage_setCurrentConversationId_def)
    with False cs cur rem r_ne found show ?thesis
      by (simp add: deleteConversation_def Let_def switchConversation_def)
  qed
qed

lemma delete_other:
  assumes "currentConversationId s \<noteq> Some i"
  shows "\<exists>s'. deleteConversation (currentConversationId s) (conversations s) i s = Inr s'
     \<and> currentConversationId s' = currentConversationId s \<and> messages s' = messages s"
  using assms by (auto simp: deleteConversation_def Let_def)

lemma handler_other:
  assumes "currentConversationId s \<noteq> Some i"
  shows "currentConversationId (deleteConversationHandler (currentConversationId s) convs deleted got i s)
           = currentConversationId s
     \<and> messages (deleteConversationHandler (currentConversationId s) convs deleted got i s) = messages s
     \<and> conversations (deleteConversationHandler (currentConversationId s) convs deleted got i s)
         = Some (filter (\<lambda>c. conv_id c \<noteq> i) (or_empty (conversations s)))"
  using assms by (auto simp: deleteConversationHandler_def Let_def)

lemma handler_current:
  assumes "currentConversationId s = Some i" and "conversations s = Some cs"
    and remaining_def: "remaining = filter (\<lambda>c. conv_id c \<noteq> i) cs"
    and s'_def: "s' = deleteConversationHandler (currentConversationId s) (conversations s) deleted got i s"
  shows "conversations s' = Some remaining
     \<and> (if remaining = [] then currentConversationId s' = None \<and> messages s' = Some []
         else (case api_getConversation got of
                 None \<Rightarrow> currentConversationId s' = Some i \<and> messages s' = messages s
               | Some (metadata, msgs) \<Rightarrow>
                   currentConversationId s' = Some (conv_id (hd remaining))
                   \<and> messages s' = Some (or_empty msgs)))"
proof (cases "remaining = []")
  case True
  with assms(1,2) show ?thesis
    by (simp add: s'_def remaining_def deleteConversationHandler_def Let_def)
next
  case False
  then have "hd remaining \<in> set remaining" by simp
  then have "conv_id (hd remaining) \<noteq> i" by (auto simp: remaining_def)
  with False assms(1,2) show ?thesis
    by (auto simp: s'_def remaining_def deleteConversationHandler_def Let_def
        switchConversation_async_def split: option.splits)
qed

text \<open>
  C4, as stated, fails in the asynchronous container. Two conversations exist and \<open>c2\<close> is
  current. \<open>deleteConversationHandler\<close> deletes \<open>c2\<close>; the request of \<open>switchConversation\<close> for
  the remaining \<open>c1\<close> is rejected (or answered with a status that is not ok), so
  \<open>getConversation\<close> returns \<open>null\<close> and nothing is set: \<open>c1\<close> is the only conversation of the
  list, and the deleted \<open>c2\<close> is still current, with its messages.
\<close>

theorem C4_failed_request_keeps_deleted_conversation:
  "currentConversationId two_chats = Some ''c2''
   \<and> map conv_id (or_empty (conversations two_chats)) = [''c2'', ''c1'']
   \<and> api_getConversation Rejects = None
   \<and> api_getConversation (Reply False None) = None
   \<and> map conv_id (or_empty (conversations (deleteConversationHandler (Some ''c2'')
        (conversations two_chats) (Reply True ()) Rejects ''c2'' two_chats))) = [''c1'']
   \<and> currentConversationId (deleteConversationHandler (Some ''c2'')
        (conversations two_chats) (Reply True ()) Rejects ''c2'' two_chats) = Some ''c2''
   \<and> messages (deleteConversationHandler (Some ''c2'')
        (conversations two_chats) (Reply True ()) Rejects ''c2'' two_chats) = messages two_chats
   \<and> currentConversationId (deleteConversationHandler (Some ''c2'')
        (conversations two_chats) (Reply True ()) (Reply False None) ''c2'' two_chats) = Some ''c2''"
proof -
  have a: "currentConversationId two_chats = Some ''c2''" by code_simp
  have b: "map conv_id (or_empty (conversations two_chats)) = [''c2'', ''c1'']" by code_simp
  have c: "api_getConversation Rejects = None" by (simp add: api_getConversation_def)
  have d: "api_getConversation (Reply False None) = None" by (simp add: api_getConversation_def)
  have e: "map conv_id (or_empty (conversations (deleteConversationHandler (Some ''c2'')
        (conversations two_chats) (Reply True ()) Rejects ''c2'' two_chats))) = [''c1'']"
    by code_simp
  have f: "currentConversationId (deleteConversationHandler (Some ''c2'')
        (conversations two_chats) (Reply True ()) Rejects ''c2'' two_chats) = Some ''c2''"
    by code_simp
  have g: "messages (deleteConversationHandler (Some ''c2'')
        (conversations two_chats) (Reply True ()) Rejects ''c2'' two_chats) = messages two_chats"
    by code_simp
  have h: "currentConversationId (deleteConversationHandler (Some ''c2'')
        (conversations two_chats) (Reply True ()) (Reply False None) ''c2'' two_chats) = Some ''c2''"
    by code_simp
  from a b c d e f g h show ?thesis by (intro conjI)
qed

text \<open>
  C4. In the synchronous container, on a state whose list shows the conversations of the
  store, \<open>deleteConversation\<close> (run on the values of the current render) returns; deleting the
  current conversation leaves, if conversations remain, the first of them current with its
  stored messages as the message list, and otherwise no conversation current and the message
  list empty; deleting another conversation changes neither.

  In the asynchronous container \<open>deleteConversationHandler\<close> removes the conversation from
  the list. Deleting another conversation than the current one changes neither the current
  conversation nor the message list. Deleting the current one: if none remains, no
  conversation is current and the message list is empty; if some remain and the service
  returns the first of them, that one is current with the messages the service returned (none
  if it returned none); if the service returns \<open>null\<close>, the current conversation and the
  message list stay as they were.
\<close>

theorem C4_delete_switches_when_the_store_answers:
  assumes "in_sync s" and "conversations a = Some cs"
  shows "(currentConversationId s = Some i \<longrightarrow>
           (\<exists>s'. deleteConversation (currentConversationId s) (conversations s) i s = Inr s'
              \<and> (let remaining = filter (\<lambda>c. conv_id c \<noteq> i) (or_empty (conversations s))
                 in conversations s' = Some remaining
                  \<and> (if remaining = []
                     then currentConversationId s' = None \<and> messages s' = Some []
                     else currentConversationId s' = Some (conv_id (hd remaining))
                        \<and> messages s' = storage_getMessages (storage s') (conv_id (hd remaining))))))
      \<and> (currentConversationId s \<noteq> Some i \<longrightarrow>
           (\<exists>s'. deleteConversation (currentConversationId s) (conversations s) i s = Inr s'
              \<and> currentConversationId s' = currentConversationId s \<and> messages s' = messages s))
      \<and> (let a' = deleteConversationHandler (currentConversationId a) (conversations a)
                     deleted got i a;
              remaining = filter (\<lambda>c. conv_id c \<noteq> i) cs
          in conversations a' = Some remaining
           \<and> (if currentConversationId a \<noteq> Some i
              then currentConversationId a' = currentConversationId a \<and> messages a' = messages a
              else if remaining = []
              then currentConversationId a' = None \<and> messages a' = Some []
              else (case api_getConversation got of
                      None \<Rightarrow> currentConversationId a' = Some i \<and> messages a' = messages a
                    | Some (metadata, msgs) \<Rightarrow>
                        currentConversationId a' = Some (conv_id (hd remaining))
                        \<and> messages a' = Some (or_empty msgs))))"
proof -
  have async: "(let a' = deleteConversationHandler (currentConversationId a) (conversations a)
                     deleted got i a;
              remaining = filter (\<lambda>c. conv_id c \<noteq> i) cs
          in conversations a' = Some remaining
           \<and> (if currentConversationId a \<noteq> Some i
              then currentConversationId a' = currentConversationId a \<and> messages a' = messages a
              else if remaining = []
              then currentConversationId a' = None \<and> messages a' = Some []
              else (case api_getConversation got of
                      None \<Rightarrow> currentConversationId a' = Some i \<and> messages a' = messages a
                    | Some (metadata, msgs) \<Rightarrow>
                        currentConversationId a' = Some (conv_id (hd remaining))
                        \<and> messages a' = Some (or_empty msgs))))"
  proof (cases "currentConversationId a = Some i")
    case False
    from handler_other [OF False, of "conversations a" deleted got] False assms(2)
    show ?thesis by (simp add: Let_def)
  next
    case True
    from handler_current [OF True assms(2) refl refl, of deleted got] True
    show ?thesis by (simp add: Let_def cong: if_cong option.case_cong)
  qed
  have current: "currentConversationId s = Some i \<longrightarrow>
           (\<exists>s'. deleteConversation (currentConversationId s) (conversations s) i s = Inr s'
              \<and> (let remaining = filter (\<lambda>c. conv_id c \<noteq> i) (or_empty (conversations s))
                 in conversations s' = Some remaining
                  \<and> (if remaining = []
                     then currentConversationId s' = None \<and> messages s' = Some []
                     else currentConversationId s' = Some (conv_id (hd remaining))
                        \<and> messages s' = storage_getMessages (storage s') (conv_id (hd remaining)))))"
    using delete_current [OF assms(1), of i] by (simp add: Let_def)
  have other: "currentConversationId s \<noteq> Some i \<longrightarrow>
           (\<exists>s'. deleteConversation (currentConversationId s) (conversations s) i s = Inr s'
              \<and> currentConversationId s' = currentConversationId s \<and> messages s' = messages s)"
    using delete_other [of s i] by simp
  show ?thesis by (rule conjI [OF current conjI [OF other async]])
qed

theorem C4_witness:
  "in_sync two_chats
   \<and> conversations two_chats = Some [chat ''c2'' ''t2'' False, chat ''c1'' ''t1'' False]
   \<and> currentConversationId two_chats = Some ''c2''
   \<and> (\<exists>s'. deleteConversation (Some ''c2'') (conversations two_chats) ''c2'' two_chats = Inr s'
        \<and> conversations s' = Some [chat ''c1'' ''t1'' False]
        \<and> currentConversationId s' = Some ''c1''
        \<and> messages s' = storage_getMessages (storage s') ''c1'')
   \<and> (\<exists>s'. deleteConversation (Some ''c2'') (conversations two_chats) ''c1'' two_chats = Inr s'
        \<and> currentConversationId s' = Some ''c2'' \<and> messages s' = messages two_chats)
   \<and> api_getConversation (Reply True (Some some_document)) =
       Some (chat ''c1'' ''t1'' False, Some [user_message ''m1'' ''hello''])
   \<and> conversations (deleteConversationHandler (Some ''c2'') (conversations two_chats)
        (Reply True ()) (Reply True (Some some_document)) ''c2'' two_chats) =
       Some [chat ''c1'' ''t1'' False]
   \<and> currentConversationId (deleteConversationHandler (Some ''c2'') (conversations two_chats)
        (Reply True ()) (Reply True (Some some_document)) ''c2'' two_chats) = Some ''c1''
   \<and> messages (deleteConversationHandler (Some ''c2'') (conversations two_chats)
        (Reply True ()) (Reply True (Some some_document)) ''c2'' two_chats) =
       Some [user_message ''m1'' ''hello'']
   \<and> currentConversationId (deleteConversationHandler (Some ''c2'') (conversations two_chats)
        (Reply True ()) (Reply True (Some some_document)) ''c1'' two_chats) = Some ''c2''
   \<and> messages (deleteConversationHandler (Some ''c2'') (conversations two_chats)
        (Reply True ()) (Reply True (Some some_document)) ''c1'' two_chats) = messages two_chats"
proof -
  have sync: "in_sync two_chats" by code_simp
  have cur: "currentConversationId two_chats = Some ''c2''" by code_simp
  have cs: "conversations two_chats = Some [chat ''c2'' ''t2'' False, chat ''c1'' ''t1'' False]"
    by code_simp
  have got: "api_getConversation (Reply True (Some some_document)) =
       Some (chat ''c1'' ''t1'' False, Some [user_message ''m1'' ''hello''])"
    by code_simp
  from C4_delete_switches_when_the_store_answers [OF sync cs, of "''c2''" "Reply True ()"
      "Reply True (Some some_document)"]
    C4_delete_switches_when_the_store_answers [OF sync cs, of "''c1''" "Reply True ()"
      "Reply True (Some some_document)"]
    sync cur cs got
  show ?thesis by (simp add: Let_def chat_def)
qed

section \<open>The list of the state follows the store\<close>

text \<open>
  The provider's first effect establishes \<open>in_sync\<close>, and every operation of the container
  that returns keeps it. \<open>addMessage\<close> with a current conversation rereads the list of the
  store, so it needs the store to hold one.
\<close>

lemma in_sync_mount: "mount ls = Inr s \<Longrightarrow> in_sync s"
  by (auto simp: mount_def Let_def in_sync_def initial_app_def split: if_splits sum.splits option.splits)

lemma ids_after_addMessage:
  assumes "storage_addMessage n now c msg ls = Inr (m', ls')"
  shows "map conv_id (or_empty (storage_getConversations ls')) =
         map conv_id (or_empty (storage_getConversations ls))
       \<and> (storage_getConversations ls \<noteq> None \<longrightarrow> storage_getConversations ls' \<noteq> None)"
proof -
  from assms obtain ms where ms: "safeJsonParse (ls_messages ls c) (Some []) = Some ms"
    by (auto simp: storage_addMessage_def split: option.splits)
  let ?cs = "or_empty (storage_getConversations ls)"
  show ?thesis
  proof (cases "findIndex (\<lambda>x. conv_id x = c) ?cs")
    case None
    with assms ms show ?thesis
      by (auto simp: storage_addMessage_def Let_def storage_getConversations_def)
  next
    case (Some k)
    from findIndex_Some [OF Some] have "k < length ?cs" "conv_id (?cs ! k) = c" by simp_all
    with assms ms Some show ?thesis
      by (auto simp: storage_addMessage_def Let_def storage_getConversations_def map_update
          intro!: nth_equalityI simp: nth_list_update)
  qed
qed

lemma ids_after_create:
  "map conv_id (or_empty (storage_getConversations (snd (storage_createConversation n now t ls)))) =
     n # map conv_id (or_empty (storage_getConversations ls))"
  by (simp add: storage_createConversation_def Let_def storage_getConversations_def)

lemma getConversations_setCurrent [simp]:
  "storage_getConversations (storage_setCurrentConversationId i ls) = storage_getConversations ls"
  by (simp add: storage_getConversations_def storage_setCurrentConversationId_def)

lemma createConversation_in_sync:
  assumes "createConversation n now t s = Inr (c, s')" and "in_sync s"
  shows "in_sync s' \<and> listed s'"
proof -
  let ?ls1 = "snd (storage_createConversation n now t (storage s))"
  let ?ls2 = "storage_setCurrentConversationId (Some n) ?ls1"
  from assms(1) obtain m' ls3 where
    a: "storage_addMessage [] now n (welcomeMessage now) ?ls2 = Inr (m', ls3)"
    and s': "storage s' = ls3"
       "conversations s' = Some (fst (storage_createConversation n now t (storage s)) # or_empty (conversations s))"
    by (auto simp: createConversation_def storage_createConversation_def Let_def split: sum.splits)
  have "storage_getConversations ?ls2 \<noteq> None"
    by (simp add: storage_createConversation_def Let_def storage_getConversations_def
        storage_setCurrentConversationId_def)
  with ids_after_addMessage [OF a]
  have ids: "map conv_id (or_empty (storage_getConversations ls3)) =
     n # map conv_id (or_empty (storage_getConversations (storage s)))"
    and l: "storage_getConversations ls3 \<noteq> None"
    by (simp_all add: ids_after_create)
  from assms(2) have "map conv_id (or_empty (conversations s)) =
      map conv_id (or_empty (storage_getConversations (storage s)))"
    by (auto simp: in_sync_def split: option.splits)
  with ids s' l show ?thesis
    by (simp add: in_sync_def listed_def storage_createConversation_def Let_def)
qed

lemma switchConversation_keeps:
  assumes "switchConversation cur i s = Inr s'"
  shows "conversations s' = conversations s
     \<and> storage_getConversations (storage s') = storage_getConversations (storage s)"
proof (cases "Some i = cur")
  case True
  with assms show ?thesis by (simp add: switchConversation_def)
next
  case False
  show ?thesis
  proof (cases "storage_getConversation (storage s) i")
    case (Inl e)
    with False assms show ?thesis by (simp add: switchConversation_def)
  next
    case (Inr r)
    show ?thesis
    proof (cases r)
      case None
      with Inr False assms show ?thesis by (simp add: switchConversation_def)
    next
      case (Some p)
      obtain metadata msgs where "p = (metadata, msgs)" by (cases p)
      with Some Inr False assms
      have "s' = s\<lparr>currentConversationId := Some i,
                    storage := storage_setCurrentConversationId (Some i) (storage s),
                    messages := msgs\<rparr>"
        by (simp add: switchConversation_def)
      then show ?thesis by simp
    qed
  qed
qed

lemma deleteConversation_in_sync:
  assumes "deleteConversation cur convs i s = Inr s'" and "in_sync s"
  shows "in_sync s'"
proof -
  let ?s1 = "s\<lparr>storage := snd (storage_deleteConversation i (storage s)),
                 conversations := Some (filter (\<lambda>c. conv_id c \<noteq> i) (or_empty (conversations s)))\<rparr>"
  from assms(2) have "map conv_id (or_empty (conversations s)) =
      map conv_id (or_empty (storage_getConversations (storage s)))"
    by (auto simp: in_sync_def split: option.splits)
  then have "map conv_id (filter (\<lambda>c. conv_id c \<noteq> i) (or_empty (conversations s))) =
      map conv_id (filter (\<lambda>c. conv_id c \<noteq> i) (or_empty (storage_getConversations (storage s))))"
    by (rule map_filter_ids)
  then have s1: "in_sync ?s1"
    by (simp add: in_sync_def stored_after_delete)
  show ?thesis
  proof (cases "Some i = cur")
    case False
    with assms(1) have "s' = ?s1" by (simp add: deleteConversation_def Let_def)
    with s1 show ?thesis by simp
  next
    case True
    with assms(1) obtain cs where cs: "convs = Some cs"
      by (cases convs) (simp_all add: deleteConversation_def Let_def)
    show ?thesis
    proof (cases "filter (\<lambda>c. conv_id c \<noteq> i) cs = []")
      case empty: True
      with True cs assms(1) have "s' = ?s1\<lparr>currentConversationId := None, messages := Some []\<rparr>"
        by (simp add: deleteConversation_def Let_def)
      with s1 show ?thesis by (simp add: in_sync_def)
    next
      case False
      with True cs assms(1) have
        "switchConversation cur (conv_id (hd (filter (\<lambda>c. conv_id c \<noteq> i) cs))) ?s1 = Inr s'"
        by (simp add: deleteConversation_def Let_def)
      from switchConversation_keeps [OF this] s1 show ?thesis
        by (simp add: in_sync_def)
    qed
  qed
qed

lemma updateConversation_in_sync:
  assumes "in_sync s"
  shows "in_sync (snd (updateConversation now i upd s))"
proof -
  let ?cs = "or_empty (storage_getConversations (storage s))"
  from assms have ids: "map conv_id (or_empty (conversations s)) = map conv_id ?cs"
    by (auto simp: in_sync_def split: option.splits)
  show ?thesis
  proof (cases "findIndex (\<lambda>c. conv_id c = i) ?cs")
    case None
    with assms show ?thesis
      by (simp add: updateConversation_def storage_updateConversation_def Let_def in_sync_def)
  next
    case (Some k)
    from findIndex_Some [OF Some] have k: "k < length ?cs" "conv_id (?cs ! k) = i" by simp_all
    let ?u = "(apply_conv_updates (?cs ! k) upd)\<lparr>updatedAt := now\<rparr>"
    have u: "conv_id ?u = i" using k(2) by (simp add: apply_conv_updates_def)
    have "conv_id (if conv_id c = i then ?u else c) = conv_id c" for c
      using u by simp
    then have a: "map (conv_id \<circ> (\<lambda>c. if conv_id c = i then ?u else c)) (or_empty (conversations s)) =
          map conv_id (or_empty (conversations s))"
      by (simp add: o_def)
    have b: "map conv_id (?cs[k := ?u]) = map conv_id ?cs"
      using k u by (simp add: map_update list_update_same_conv)
    from Some a b ids show ?thesis
      by (simp add: updateConversation_def storage_updateConversation_def Let_def in_sync_def
          storage_getConversations_def cong: if_cong)
  qed
qed

lemma storage_updateMessage_list:
  assumes "storage_updateMessage c i u ls = Inr (r, ls')"
  shows "ls_conversations ls' = ls_conversations ls"
proof (cases "safeJsonParse (ls_messages ls c) (Some [])")
  case None
  with assms show ?thesis by (simp add: storage_updateMessage_def)
next
  case (Some ms)
  with assms show ?thesis
    by (cases "findIndex (\<lambda>m. msg_id m = i) ms") (auto simp: storage_updateMessage_def Let_def)
qed

lemma updateMessage_in_sync:
  assumes "updateMessage cur i u s = Inr s'" and "in_sync s"
  shows "in_sync s'"
proof (cases "truthy_id cur")
  case False
  with assms show ?thesis by (auto simp: updateMessage_def in_sync_def split: option.splits)
next
  case True
  with assms(1) obtain r ls' where
    u: "storage_updateMessage (the cur) i u (storage s) = Inr (r, ls')"
    and s': "storage s' = ls'" "conversations s' = conversations s"
    by (cases "storage_updateMessage (the cur) i u (storage s)") (auto simp: updateMessage_def)
  from storage_updateMessage_list [OF u] s' assms(2) show ?thesis
    by (simp add: in_sync_def storage_getConversations_def split: option.splits)
qed

lemma addMessage_in_sync:
  assumes "addMessage cur n k now msg s = Inr s'" and "in_sync s"
    and "truthy_id cur \<longrightarrow> listed s"
  shows "in_sync s' \<and> listed s'"
proof (cases "truthy_id cur")
  case False
  with assms(1) obtain nc s1 m' ls2 where
    c: "createConversation n now ''New Chat'' s = Inr (nc, s1)"
    and a: "storage_addMessage k now (conv_id nc) msg (storage s1) = Inr (m', ls2)"
    and s': "storage s' = ls2"
      "conversations s' = conversations s1 \<or>
       conversations s' = Some (or_empty (storage_getConversations ls2))"
    by (auto simp: addMessage_def Let_def split: sum.splits if_splits)
  from createConversation_in_sync [OF c assms(2)] have s1: "in_sync s1" "listed s1" by simp_all
  from ids_after_addMessage [OF a] s1(2)
  have ids: "map conv_id (or_empty (storage_getConversations ls2)) =
        map conv_id (or_empty (storage_getConversations (storage s1)))"
    and l: "storage_getConversations ls2 \<noteq> None"
    by (simp_all add: listed_def)
  from s'(2) s1(1) ids s'(1) l show ?thesis
    by (auto simp: in_sync_def listed_def split: option.splits)
next
  case True
  with assms(1) obtain m' ls1 where
    a: "storage_addMessage k now (the cur) msg (storage s) = Inr (m', ls1)"
    and s': "storage s' = ls1"
      "conversations s' = conversations s \<or> conversations s' = storage_getConversations ls1"
    by (auto simp: addMessage_def Let_def split: sum.splits if_splits option.splits)
  from True assms(3) have "storage_getConversations (storage s) \<noteq> None" by (simp add: listed_def)
  with ids_after_addMessage [OF a]
  have ids: "map conv_id (or_empty (storage_getConversations ls1)) =
        map conv_id (or_empty (storage_getConversations (storage s)))"
    and l: "storage_getConversations ls1 \<noteq> None"
    by simp_all
  from s'(2) assms(2) ids s'(1) l show ?thesis
    by (auto simp: in_sync_def listed_def split: option.splits)
qed

section \<open>The typing animation\<close>

lemma last_message_SomeD:
  "last_message s = Some m \<Longrightarrow> \<exists>msgs. messages s = Some msgs \<and> msgs \<noteq> [] \<and> last msgs = m"
  by (auto simp: last_message_def split: option.splits if_splits)

lemma last_message_before_effect [simp]: "last_message (before_effect s) = last_message s"
  by (simp add: before_effect_def clear_typing_def clearInterval_def last_message_def split: option.splits)

lemma typing_effect_starts:
  assumes "last_message s = Some m" and "role m = ''bot''" and "answer m \<noteq> []"
    and "displayedAnswer m \<noteq> answer m" and "isStreaming m"
  shows "typing_effect s =
     Inr ((clear_typing (before_effect s))
           \<lparr>intervals := intervals (clear_typing (before_effect s)) @
               [(next_interval s, \<lparr>iv_cur = currentConversationId s, iv_msg = msg_id m,
                  iv_answer = answer m, iv_index = length (displayedAnswer m), iv_delay = 15\<rparr>)],
             next_interval := Suc (next_interval s),
             typingIntervalRef := Some (next_interval s), cleanup_pending := True\<rparr>)"
proof -
  from last_message_SomeD [OF assms(1)] obtain msgs where
    ms: "messages s = Some msgs" "msgs \<noteq> []" "last msgs = m" by blast
  have fr: "messages (before_effect s) = messages s" "currentConversationId (before_effect s) = currentConversationId s"
    "next_interval (clear_typing (before_effect s)) = next_interval s"
    by (simp_all add: before_effect_def clear_typing_def clearInterval_def split: option.splits)
  have idx: "(if displayedAnswer m \<noteq> [] then length (displayedAnswer m) else 0) = length (displayedAnswer m)"
    by simp
  show ?thesis
    unfolding typing_effect_def before_effect_def [symmetric]
    using ms assms(2-5) fr idx by (simp add: Let_def setInterval_def)
qed

lemma typing_effect_idle:
  assumes "last_message s = Some m" and "role m = ''bot''" and "displayedAnswer m = answer m"
  shows "typing_effect s = Inr ((before_effect s)\<lparr>cleanup_pending := False\<rparr>)"
proof -
  from last_message_SomeD [OF assms(1)] obtain msgs where
    ms: "messages s = Some msgs" "msgs \<noteq> []" "last msgs = m" by blast
  have fr: "messages (before_effect s) = messages s"
    by (simp_all add: before_effect_def clear_typing_def clearInterval_def split: option.splits)
  show ?thesis
    unfolding typing_effect_def before_effect_def [symmetric]
    using ms assms(2-3) fr by (simp add: Let_def)
qed

lemma updateMessage_keeps:
  assumes "updateMessage cur i u s = Inr s'"
  shows "intervals s' = intervals s \<and> typingIntervalRef s' = typingIntervalRef s
     \<and> next_interval s' = next_interval s \<and> cleanup_pending s' = cleanup_pending s"
  using assms by (auto simp: updateMessage_def split: sum.splits if_splits)

lemma typing_effect_snaps:
  assumes "last_message s = Some m" and "role m = ''bot''" and "answer m \<noteq> []"
    and "displayedAnswer m \<noteq> answer m" and "\<not> isStreaming m"
    and "persisted (currentConversationId s) s"
  shows "\<exists>s'. typing_effect s = Inr s'
     \<and> last_message s' = Some (m\<lparr>displayedAnswer := answer m\<rparr>)
     \<and> intervals s' = intervals (before_effect s) \<and> \<not> cleanup_pending s'
     \<and> messages s' \<noteq> messages s \<and> persisted (currentConversationId s') s'
     \<and> currentConversationId s' = currentConversationId s"
proof -
  from last_message_SomeD [OF assms(1)] obtain msgs where
    ms: "messages s = Some msgs" "msgs \<noteq> []" "last msgs = m" by blast
  let ?s0 = "before_effect s"
  let ?u = "no_updates\<lparr>set_displayedAnswer := Some (answer m)\<rparr>"
  have fr: "messages ?s0 = messages s" "currentConversationId ?s0 = currentConversationId s"
    "storage ?s0 = storage s"
    by (simp_all add: before_effect_def clear_typing_def clearInterval_def split: option.splits)
  with assms(6) have "persisted (currentConversationId ?s0) ?s0" by (simp add: persisted_def)
  from updateMessage_ok [OF this, of "msg_id m" ?u] obtain s1 where
    u: "updateMessage (currentConversationId ?s0) (msg_id m) ?u ?s0 = Inr s1"
    and m1: "messages s1 = Some (upd_msgs (msg_id m) ?u (or_empty (messages ?s0)))"
    and p1: "persisted (currentConversationId ?s0) s1"
    and c1: "currentConversationId s1 = currentConversationId ?s0"
    by blast
  from updateMessage_keeps [OF u] have f1: "intervals s1 = intervals ?s0"
    by simp
  have am: "apply_updates m ?u = m\<lparr>displayedAnswer := answer m\<rparr>"
    by (simp add: apply_updates_def no_updates_def overwrite_def)
  from m1 ms fr have l1: "last_message s1 = Some (m\<lparr>displayedAnswer := answer m\<rparr>)"
    by (simp add: last_message_def upd_msgs_def last_map am)
  have ne: "messages s1 \<noteq> messages s"
  proof
    assume "messages s1 = messages s"
    with l1 assms(1) have "m\<lparr>displayedAnswer := answer m\<rparr> = m"
      by (simp add: last_message_def)
    then have "displayedAnswer (m\<lparr>displayedAnswer := answer m\<rparr>) = displayedAnswer m" by simp
    with assms(4) show False by simp
  qed
  have te: "typing_effect s = Inr (s1\<lparr>cleanup_pending := False\<rparr>)"
    unfolding typing_effect_def before_effect_def [symmetric]
    using ms assms(2-5) fr u by (simp add: Let_def)
  from l1 have "last_message (s1\<lparr>cleanup_pending := False\<rparr>) = Some (m\<lparr>displayedAnswer := answer m\<rparr>)"
    by (simp add: last_message_def)
  with te f1 ne p1 c1 fr show ?thesis by (simp add: persisted_def)
qed


lemma js_slice_take: "js_slice xs 0 (int k + 1) = take (Suc k) xs"
  by (auto simp: js_slice_def Let_def min_def take_all nat_add_distrib)

lemma typing_step:
  assumes t: "typing a k s" and k: "k < length a"
  shows "\<exists>s'. fire s = Inr s' \<and> typing a (Suc k) s'
     \<and> currentConversationId s' = currentConversationId s"
proof -
  from t obtain m where lm: "last_message s = Some m"
    by (auto simp: typing_def split: option.splits)
  with t k have m: "role m = ''bot''" "isStreaming m" "answer m = a" "displayedAnswer m = take k a"
    and p: "persisted (currentConversationId s) s"
    and r: "typingIntervalRef s \<noteq> None" "cleanup_pending s"
    and iv: "intervals s = [(the (typingIntervalRef s),
                \<lparr>iv_cur = currentConversationId s, iv_msg = msg_id m, iv_answer = a,
                 iv_index = k, iv_delay = 15\<rparr>)]"
    by (simp_all add: typing_def)
  from r(1) obtain t0 where t0: "typingIntervalRef s = Some t0" by auto
  let ?u = "no_updates\<lparr>set_displayedAnswer := Some (take (Suc k) a)\<rparr>"
  from updateMessage_ok [OF p, of "msg_id m" ?u] obtain s1 where
    u: "updateMessage (currentConversationId s) (msg_id m) ?u s = Inr s1"
    and m1: "messages s1 = Some (upd_msgs (msg_id m) ?u (or_empty (messages s)))"
    and p1: "persisted (currentConversationId s) s1"
    and c1: "currentConversationId s1 = currentConversationId s"
    by blast
  note k1 = updateMessage_keeps [OF u]
  let ?m' = "m\<lparr>displayedAnswer := take (Suc k) a\<rparr>"
  have am: "apply_updates m ?u = ?m'"
    by (simp add: apply_updates_def no_updates_def overwrite_def)
  from last_message_SomeD [OF lm] obtain msgs where
    ms: "messages s = Some msgs" "msgs \<noteq> []" "last msgs = m" by blast
  let ?s2 = "s1\<lparr>intervals := [(t0, \<lparr>iv_cur = currentConversationId s, iv_msg = msg_id m,
                 iv_answer = a, iv_index = Suc k, iv_delay = 15\<rparr>)]\<rparr>"
  from m1 ms have l2: "last_message ?s2 = Some ?m'"
    by (simp add: last_message_def upd_msgs_def last_map am)
  have ot: "on_tick t0 s = Inr (True, ?s2)"
    using iv t0 k u k1 by (simp add: on_tick_def js_slice_take Let_def)
  have fire: "fire s = commit ?s2"
    using iv t0 ot by (simp add: fire_def tick_def)
  have be: "before_effect ?s2 = s1\<lparr>intervals := []\<rparr>"
    using k1 r(2) t0 by (simp add: before_effect_def clear_typing_def clearInterval_def)
  have ct: "clear_typing (s1\<lparr>intervals := []\<rparr>) = s1\<lparr>intervals := []\<rparr>"
    using k1 t0 by (simp add: clear_typing_def clearInterval_def)
  show ?thesis
  proof (cases "Suc k < length a")
    case True
    then have ne: "displayedAnswer ?m' \<noteq> answer ?m'" "answer ?m' \<noteq> []"
      using m(3) by (auto dest: arg_cong [where f = length])
    from typing_effect_starts [OF l2 _ ne(2) ne(1)] m(1,2)
    have te: "typing_effect ?s2 =
      Inr (?s2\<lparr>intervals := [(next_interval s,
               \<lparr>iv_cur = currentConversationId s, iv_msg = msg_id m, iv_answer = a,
                iv_index = Suc k, iv_delay = 15\<rparr>)],
             next_interval := Suc (next_interval s),
             typingIntervalRef := Some (next_interval s), cleanup_pending := True\<rparr>)"
      (is "_ = Inr ?s3")
      using True m(3) c1 k1 by (simp add: be ct)
    then have "commit ?s2 = Inr ?s3" by (simp add: commit_def)
    moreover have "typing a (Suc k) ?s3"
      using True l2 m p1 c1 by (simp add: typing_def last_message_def persisted_def)
    moreover have "currentConversationId ?s3 = currentConversationId s" using c1 by simp
    ultimately show ?thesis using fire by simp
  next
    case False
    with k have eq: "Suc k = length a" by simp
    then have full: "displayedAnswer ?m' = answer ?m'" using m(3) by simp
    from typing_effect_idle [OF l2 _ full] m(1)
    have te: "typing_effect ?s2 = Inr (?s2\<lparr>intervals := [], cleanup_pending := False\<rparr>)"
      (is "_ = Inr ?s3")
      by (simp add: be)
    then have "commit ?s2 = Inr ?s3" by (simp add: commit_def)
    moreover have "typing a (Suc k) ?s3"
      using eq l2 m p1 c1 by (simp add: typing_def last_message_def persisted_def)
    moreover have "currentConversationId ?s3 = currentConversationId s" using c1 by simp
    ultimately show ?thesis using fire by simp
  qed
qed

lemma typing_done:
  assumes "typing a (length a) s"
  shows "fire s = Inr s"
  using assms by (auto simp: typing_def fire_def split: option.splits)

lemma typing_start:
  assumes lm: "last_message s = Some m" and m: "role m = ''bot''" "isStreaming m"
    and pre: "prefix (displayedAnswer m) (answer m)" and ne: "displayedAnswer m \<noteq> answer m"
    and p: "persisted (currentConversationId s) s" and one: "single_timer s"
  shows "\<exists>s'. commit s = Inr s' \<and> typing (answer m) (length (displayedAnswer m)) s'
     \<and> currentConversationId s' = currentConversationId s"
proof -
  from pre ne have a: "answer m \<noteq> []" by auto
  from pre have d: "displayedAnswer m = take (length (displayedAnswer m)) (answer m)"
    by (auto simp: prefix_def)
  from pre ne have lt: "length (displayedAnswer m) < length (answer m)"
    by (metis d nat_less_le prefix_length_le take_all_iff)
  have none: "intervals (clear_typing (before_effect s)) = []"
  proof (cases "typingIntervalRef s")
    case None
    with one have "intervals s = []"
      by (cases "intervals s") (auto simp: single_timer_def)
    with None show ?thesis by (simp add: before_effect_def clear_typing_def)
  next
    case (Some t0)
    with one have "filter (\<lambda>(k, iv). k \<noteq> t0) (intervals s) = []"
      by (auto simp: single_timer_def filter_empty_conv list_all_iff)
    with Some show ?thesis
      by (simp add: before_effect_def clear_typing_def clearInterval_def)
  qed
  let ?s1 = "(clear_typing (before_effect s))
           \<lparr>intervals := [(next_interval s, \<lparr>iv_cur = currentConversationId s, iv_msg = msg_id m,
                  iv_answer = answer m, iv_index = length (displayedAnswer m), iv_delay = 15\<rparr>)],
             next_interval := Suc (next_interval s),
             typingIntervalRef := Some (next_interval s), cleanup_pending := True\<rparr>"
  have fr: "messages (clear_typing (before_effect s)) = messages s"
    "currentConversationId (clear_typing (before_effect s)) = currentConversationId s"
    "storage (clear_typing (before_effect s)) = storage s"
    by (simp_all add: before_effect_def clear_typing_def clearInterval_def split: option.splits)
  from typing_effect_starts [OF lm m(1) a ne m(2)] none
  have te: "typing_effect s = Inr ?s1" by simp
  with fr have "commit s = Inr ?s1" by (simp add: commit_def)
  moreover have "typing (answer m) (length (displayedAnswer m)) ?s1"
    using lm m d lt p fr by (simp add: typing_def last_message_def persisted_def)
  moreover have "currentConversationId ?s1 = currentConversationId s" using fr by simp
  ultimately show ?thesis by blast
qed

lemma typing_fires:
  assumes "typing a k s" and "k + n \<le> length a"
  shows "\<exists>s'. fires n s = Inr s' \<and> typing a (k + n) s'"
  using assms
proof (induction n arbitrary: k s)
  case 0
  then show ?case by simp
next
  case (Suc n)
  then have "k < length a" by simp
  from typing_step [OF Suc.prems(1) this] obtain s1 where
    s1: "fire s = Inr s1" "typing a (Suc k) s1" by blast
  from Suc.IH [OF s1(2)] Suc.prems(2) obtain s' where
    "fires n s1 = Inr s'" "typing a (Suc k + n) s'" by auto
  with s1(1) show ?case by simp
qed

lemma typing_fires_more:
  assumes "typing a (length a) s"
  shows "fires n s = Inr s"
  using assms by (induction n) (simp_all add: typing_done)

lemma fires_add:
  "fires (n1 + n2) s = (case fires n1 s of Inl e \<Rightarrow> Inl e | Inr s1 \<Rightarrow> fires n2 s1)"
  by (induction n1 arbitrary: s) (auto split: sum.splits)

lemma typing_le: "typing a k s \<Longrightarrow> k \<le> length a"
  by (auto simp: typing_def split: option.splits)

lemma typing_fires_any:
  assumes "typing a k s"
  shows "\<exists>s'. fires n s = Inr s' \<and> typing a (min (k + n) (length a)) s'"
proof (cases "k + n \<le> length a")
  case True
  with typing_fires [OF assms] show ?thesis by (simp add: min_def)
next
  case False
  from assms have kl: "k \<le> length a" by (rule typing_le)
  define n1 where "n1 = length a - k"
  define n2 where "n2 = n - n1"
  from False kl have n: "n = n1 + n2" and full: "k + n1 = length a"
    by (simp_all add: n1_def n2_def)
  from typing_fires [OF assms, of n1] full obtain s1 where
    s1: "fires n1 s = Inr s1" "typing a (length a) s1" by auto
  from typing_fires_more [OF s1(2), of n2] have "fires n2 s1 = Inr s1" .
  with s1 have "fires n s = Inr s1" by (simp add: n fires_add)
  moreover from False have "min (k + n) (length a) = length a" by simp
  ultimately show ?thesis using s1(2) by simp
qed

lemma typing_shows:
  assumes "typing a k s"
  shows "\<exists>m. last_message s = Some m \<and> answer m = a \<and> displayedAnswer m = take k a
     \<and> (if k < length a
         then \<exists>t iv. intervals s = [(t, iv)] \<and> typingIntervalRef s = Some t \<and> iv_delay iv = 15
         else intervals s = [])"
proof -
  from assms obtain m where m: "last_message s = Some m"
    by (auto simp: typing_def split: option.splits)
  show ?thesis
  proof (cases "k < length a")
    case True
    with assms m show ?thesis by (auto simp: typing_def)
  next
    case False
    with assms m show ?thesis by (simp add: typing_def)
  qed
qed

lemma before_effect_clears:
  assumes "single_timer s"
  shows "intervals (before_effect s) = []"
proof (cases "intervals s = []")
  case True
  then show ?thesis
    by (simp add: before_effect_def clear_typing_def clearInterval_def split: option.splits)
next
  case False
  with assms have cp: "cleanup_pending s"
    and all: "list_all (\<lambda>(k, iv). typingIntervalRef s = Some k) (intervals s)"
    by (simp_all add: single_timer_def)
  from False all obtain t0 where t0: "typingIntervalRef s = Some t0"
    by (cases "intervals s") auto
  with all have "filter (\<lambda>(k, iv). k \<noteq> t0) (intervals s) = []"
    by (auto simp: filter_empty_conv list_all_iff)
  with cp t0 show ?thesis
    by (simp add: before_effect_def clear_typing_def clearInterval_def)
qed

lemma animation_runs:
  assumes "last_message s = Some m" and "role m = ''bot''" and "isStreaming m"
    and "prefix (displayedAnswer m) (answer m)" and "displayedAnswer m \<noteq> answer m"
    and "persisted (currentConversationId s) s" and "single_timer s"
    and "n \<le> length (answer m) - length (displayedAnswer m)"
  shows "\<exists>s' m'. animate n s = Inr s' \<and> last_message s' = Some m' \<and> answer m' = answer m
     \<and> displayedAnswer m' = take (length (displayedAnswer m) + n) (answer m)
     \<and> (if n < length (answer m) - length (displayedAnswer m)
         then \<exists>t iv. intervals s' = [(t, iv)] \<and> typingIntervalRef s' = Some t \<and> iv_delay iv = 15
         else intervals s' = [])"
proof -
  let ?a = "answer m" and ?d = "displayedAnswer m"
  from assms(4) have "length ?d \<le> length ?a" by (rule prefix_length_le)
  with assms(8) have le: "length ?d + n \<le> length ?a" by simp
  from typing_start [OF assms(1-7)] obtain s1 where
    s1: "commit s = Inr s1" "typing ?a (length ?d) s1" by blast
  from typing_fires [OF s1(2) le] obtain s' where
    s': "fires n s1 = Inr s'" "typing ?a (length ?d + n) s'" by blast
  from s1(1) s'(1) have run: "animate n s = Inr s'" by (simp add: animate_def)
  have iff: "(length ?d + n < length ?a) = (n < length ?a - length ?d)" by linarith
  from typing_shows [OF s'(2)] obtain m' where
    m': "last_message s' = Some m'" "answer m' = ?a" "displayedAnswer m' = take (length ?d + n) ?a"
    "if length ?d + n < length ?a
     then \<exists>t iv. intervals s' = [(t, iv)] \<and> typingIntervalRef s' = Some t \<and> iv_delay iv = 15
     else intervals s' = []"
    by blast
  from m'(4) have "if n < length ?a - length ?d
     then \<exists>t iv. intervals s' = [(t, iv)] \<and> typingIntervalRef s' = Some t \<and> iv_delay iv = 15
     else intervals s' = []"
    unfolding iff .
  with run m'(1-3) show ?thesis by blast
qed

lemma snap_shows_answer:
  assumes "last_message s = Some m" and "role m = ''bot''"
    and "persisted (currentConversationId s) s" and "single_timer s"
    and "\<not> isStreaming m" and "answer m \<noteq> []" and "displayedAnswer m \<noteq> answer m"
  shows "\<exists>s' m'. commit s = Inr s' \<and> last_message s' = Some m' \<and> answer m' = answer m
     \<and> displayedAnswer m' = answer m \<and> intervals s' = []"
proof -
  from typing_effect_snaps [OF assms(1,2,6,7,5,3)] obtain s1 where
    s1: "typing_effect s = Inr s1" "last_message s1 = Some (m\<lparr>displayedAnswer := answer m\<rparr>)"
      "intervals s1 = intervals (before_effect s)" "\<not> cleanup_pending s1"
      "messages s1 \<noteq> messages s"
    by blast
  from s1(3) before_effect_clears [OF assms(4)] have i1: "intervals s1 = []" by simp
  from s1(4) have be: "before_effect s1 = s1" by (simp add: before_effect_def)
  have "typing_effect s1 = Inr (s1\<lparr>cleanup_pending := False\<rparr>)"
    using typing_effect_idle [OF s1(2)] assms(2) by (simp add: be)
  with s1(1,5) have c: "commit s = Inr (s1\<lparr>cleanup_pending := False\<rparr>)"
    by (simp add: commit_def)
  from s1(2) have l: "last_message (s1\<lparr>cleanup_pending := False\<rparr>) =
      Some (m\<lparr>displayedAnswer := answer m\<rparr>)"
    by (simp add: last_message_def)
  from i1 have i: "intervals (s1\<lparr>cleanup_pending := False\<rparr>) = []" by simp
  show ?thesis
    apply (rule exI [of _ "s1\<lparr>cleanup_pending := False\<rparr>"])
    apply (rule exI [of _ "m\<lparr>displayedAnswer := answer m\<rparr>"])
    using c l i by simp
qed

text \<open>
  C5, as stated, fails. A streaming bot message with answer \<open>xy\<close> that shows \<open>ab\<close> (the
  text of an earlier \<open>text\<close> frame) starts interval 1 with its counter at 2; at its first
  tick the counter is not below the length of the answer, the interval clears itself, and the
  message still shows \<open>ab\<close>. A bot message that is not streaming, with the empty answer and
  showing \<open>ab\<close>, is left as it is.
\<close>

theorem C5_stuck_animation:
  "last_message (showing ''xy'' ''ab'' True) = Some (bot_msg ''xy'' ''ab'' True)
   \<and> shown (animate 0 (showing ''xy'' ''ab'' True)) = Inr ([([], []), (''xy'', ''ab'')], [1])
   \<and> shown (animate 1 (showing ''xy'' ''ab'' True)) = Inr ([([], []), (''xy'', ''ab'')], [])
   \<and> last_message (showing [] ''ab'' False) = Some (bot_msg [] ''ab'' False)
   \<and> shown (commit (showing [] ''ab'' False)) = Inr ([([], []), ([], ''ab'')], [])"
proof -
  have a: "last_message (showing ''xy'' ''ab'' True) = Some (bot_msg ''xy'' ''ab'' True)"
    by (simp add: showing_def last_message_def)
  have b: "shown (animate 0 (showing ''xy'' ''ab'' True)) = Inr ([([], []), (''xy'', ''ab'')], [1])"
    by code_simp
  have c: "shown (animate 1 (showing ''xy'' ''ab'' True)) = Inr ([([], []), (''xy'', ''ab'')], [])"
    by code_simp
  have d: "last_message (showing [] ''ab'' False) = Some (bot_msg [] ''ab'' False)"
    by (simp add: showing_def last_message_def)
  have e: "shown (commit (showing [] ''ab'' False)) = Inr ([([], []), ([], ''ab'')], [])"
    by code_simp
  from a b c d e show ?thesis by blast
qed

text \<open>
  C5, amended: the last message is a bot message, the store can be written and at most the
  interval of the ref is running. While the message is streaming and its \<open>displayedAnswer\<close>
  is a proper prefix of its \<open>answer\<close>, after the renders and \<open>n\<close> ticks (for every \<open>n\<close> up
  to the number of characters missing) \<open>displayedAnswer\<close> is the prefix of \<open>answer\<close> that is
  \<open>n\<close> characters longer; as long as characters are missing exactly one interval runs, with
  a delay of 15 ms, and when \<open>displayedAnswer\<close> equals \<open>answer\<close> none runs. When the
  message is not streaming and \<open>displayedAnswer\<close> differs from a non-empty \<open>answer\<close>, the
  renders set \<open>displayedAnswer\<close> to the answer, and no interval runs.
\<close>

theorem C5_typing_animation:
  assumes "last_message s = Some m" and "role m = ''bot''"
    and "persisted (currentConversationId s) s" and "single_timer s"
  shows "(isStreaming m \<and> prefix (displayedAnswer m) (answer m) \<and> displayedAnswer m \<noteq> answer m \<longrightarrow>
           (\<forall>n \<le> length (answer m) - length (displayedAnswer m).
              \<exists>s' m'. animate n s = Inr s' \<and> last_message s' = Some m' \<and> answer m' = answer m
                 \<and> displayedAnswer m' = take (length (displayedAnswer m) + n) (answer m)
                 \<and> (if n < length (answer m) - length (displayedAnswer m)
                    then \<exists>t iv. intervals s' = [(t, iv)] \<and> typingIntervalRef s' = Some t
                           \<and> iv_delay iv = 15
                    else intervals s' = [])))
       \<and> (\<not> isStreaming m \<and> answer m \<noteq> [] \<and> displayedAnswer m \<noteq> answer m \<longrightarrow>
           (\<exists>s' m'. commit s = Inr s' \<and> last_message s' = Some m' \<and> answer m' = answer m
              \<and> displayedAnswer m' = answer m \<and> intervals s' = []))"
proof (intro conjI impI allI)
  fix n
  assume "isStreaming m \<and> prefix (displayedAnswer m) (answer m) \<and> displayedAnswer m \<noteq> answer m"
    and "n \<le> length (answer m) - length (displayedAnswer m)"
  then show "\<exists>s' m'. animate n s = Inr s' \<and> last_message s' = Some m' \<and> answer m' = answer m
      \<and> displayedAnswer m' = take (length (displayedAnswer m) + n) (answer m)
      \<and> (if n < length (answer m) - length (displayedAnswer m)
          then \<exists>t iv. intervals s' = [(t, iv)] \<and> typingIntervalRef s' = Some t \<and> iv_delay iv = 15
          else intervals s' = [])"
    using animation_runs [OF assms(1,2) _ _ _ assms(3,4), of n] by blast
next
  assume "\<not> isStreaming m \<and> answer m \<noteq> [] \<and> displayedAnswer m \<noteq> answer m"
  then show "\<exists>s' m'. commit s = Inr s' \<and> last_message s' = Some m' \<and> answer m' = answer m
      \<and> displayedAnswer m' = answer m \<and> intervals s' = []"
    using snap_shows_answer [OF assms] by blast
qed

theorem C5_witness:
  "last_message (showing ''hello'' ''he'' True) = Some (bot_msg ''hello'' ''he'' True)
   \<and> last_message (showing ''hello'' ''he'' False) = Some (bot_msg ''hello'' ''he'' False)
   \<and> persisted (currentConversationId (showing ''hello'' ''he'' True)) (showing ''hello'' ''he'' True)
   \<and> single_timer (showing ''hello'' ''he'' True)
   \<and> prefix ''he'' ''hello''
   \<and> (\<exists>s' m'. animate 1 (showing ''hello'' ''he'' True) = Inr s' \<and> last_message s' = Some m'
         \<and> answer m' = ''hello'' \<and> displayedAnswer m' = ''hel''
         \<and> (\<exists>t iv. intervals s' = [(t, iv)] \<and> typingIntervalRef s' = Some t \<and> iv_delay iv = 15))
   \<and> (\<exists>s' m'. animate 3 (showing ''hello'' ''he'' True) = Inr s' \<and> last_message s' = Some m'
         \<and> answer m' = ''hello'' \<and> displayedAnswer m' = ''hello'' \<and> intervals s' = [])
   \<and> (\<exists>s' m'. commit (showing ''hello'' ''he'' False) = Inr s' \<and> last_message s' = Some m'
         \<and> answer m' = ''hello'' \<and> displayedAnswer m' = ''hello'' \<and> intervals s' = [])"
proof -
  let ?s = "showing ''hello'' ''he'' True" and ?m = "bot_msg ''hello'' ''he'' True"
  let ?s2 = "showing ''hello'' ''he'' False" and ?m2 = "bot_msg ''hello'' ''he'' False"
  have h1: "last_message ?s = Some ?m"
    by (simp add: showing_def last_message_def)
  have h2: "role ?m = ''bot''" by (simp add: bot_msg_def)
  have h3: "persisted (currentConversationId ?s) ?s"
    by (simp add: showing_def fresh_app_def persisted_def truthy_id_def)
  have h4: "single_timer ?s"
    by (simp add: showing_def fresh_app_def single_timer_def)
  have g1: "last_message ?s2 = Some ?m2"
    by (simp add: showing_def last_message_def)
  have g2: "role ?m2 = ''bot''" by (simp add: bot_msg_def)
  have g3: "persisted (currentConversationId ?s2) ?s2"
    by (simp add: showing_def fresh_app_def persisted_def truthy_id_def)
  have g4: "single_timer ?s2"
    by (simp add: showing_def fresh_app_def single_timer_def)
  have pre: "isStreaming ?m \<and> prefix (displayedAnswer ?m) (answer ?m) \<and> displayedAnswer ?m \<noteq> answer ?m"
    by (simp add: bot_msg_def)
  have pre2: "\<not> isStreaming ?m2 \<and> answer ?m2 \<noteq> [] \<and> displayedAnswer ?m2 \<noteq> answer ?m2"
    by (simp add: bot_msg_def)
  have f: "answer ?m = ''hello''" "displayedAnswer ?m = ''he''" "answer ?m2 = ''hello''"
    by (simp_all add: bot_msg_def)
  note run = C5_typing_animation [OF h1 h2 h3 h4, THEN conjunct1, THEN mp, OF pre, THEN spec]
  note snap = C5_typing_animation [OF g1 g2 g3 g4, THEN conjunct2, THEN mp, OF pre2]
  from run [of 1] have r1: "\<exists>s' m'. animate 1 ?s = Inr s' \<and> last_message s' = Some m'
         \<and> answer m' = ''hello'' \<and> displayedAnswer m' = ''hel''
         \<and> (\<exists>t iv. intervals s' = [(t, iv)] \<and> typingIntervalRef s' = Some t \<and> iv_delay iv = 15)"
    by (simp add: f)
  from run [of 3] have r3: "\<exists>s' m'. animate 3 ?s = Inr s' \<and> last_message s' = Some m'
         \<and> answer m' = ''hello'' \<and> displayedAnswer m' = ''hello'' \<and> intervals s' = []"
    by (simp add: f)
  from snap have r4: "\<exists>s' m'. commit ?s2 = Inr s' \<and> last_message s' = Some m'
         \<and> answer m' = ''hello'' \<and> displayedAnswer m' = ''hello'' \<and> intervals s' = []"
    by (simp add: f)
  have p: "prefix ''he'' ''hello''" by simp
  from h1 g1 h3 h4 p r1 r3 r4 show ?thesis by blast
qed

lemma on_tick_sets_slice:
  assumes "map_of (intervals s0) t = Some iv" and "iv_index iv < length (iv_answer iv)"
    and "on_tick t s0 = Inr r"
  shows "messages (snd r) = Some (upd_msgs (iv_msg iv)
             (no_updates\<lparr>set_displayedAnswer := Some (take (iv_index iv + 1) (iv_answer iv))\<rparr>)
             (or_empty (messages s0)))"
proof -
  let ?u = "no_updates\<lparr>set_displayedAnswer := Some (take (Suc (iv_index iv)) (iv_answer iv))\<rparr>"
  from assms obtain s1 where u: "updateMessage (iv_cur iv) (iv_msg iv) ?u s0 = Inr s1"
    and r: "messages (snd r) = messages s1"
    by (cases "updateMessage (iv_cur iv) (iv_msg iv) ?u s0")
       (auto simp: on_tick_def js_slice_take Let_def)
  from u have "messages s1 = Some (upd_msgs (iv_msg iv) ?u (or_empty (messages s0)))"
    by (cases "truthy_id (iv_cur iv)")
       (auto simp: updateMessage_def upd_msgs_def split: sum.splits)
  with r show ?thesis by simp
qed

text \<open>
  C9: a tick of an interval whose counter is below the length of its answer sets the
  \<open>displayedAnswer\<close> of its message to \<open>answer.slice(0, currentIndex + 1)\<close>. If the animation
  starts on a streaming bot message whose \<open>displayedAnswer\<close> is a proper prefix of its
  \<open>answer\<close>, then after the renders and any number \<open>n\<close> of ticks, nothing else happening in
  between, the answer is the same and \<open>displayedAnswer\<close> is a prefix of it.
\<close>

theorem C9_displayed_answer_stays_prefix:
  assumes "last_message s = Some m" and "role m = ''bot''" and "isStreaming m"
    and "prefix (displayedAnswer m) (answer m)" and "displayedAnswer m \<noteq> answer m"
    and "persisted (currentConversationId s) s" and "single_timer s"
  shows "(map_of (intervals s0) t = Some iv \<and> iv_index iv < length (iv_answer iv)
            \<and> on_tick t s0 = Inr r \<longrightarrow>
          messages (snd r) = Some (upd_msgs (iv_msg iv)
             (no_updates\<lparr>set_displayedAnswer := Some (take (iv_index iv + 1) (iv_answer iv))\<rparr>)
             (or_empty (messages s0))))
     \<and> (\<exists>s' m'. animate n s = Inr s' \<and> last_message s' = Some m' \<and> answer m' = answer m
           \<and> prefix (displayedAnswer m') (answer m'))"
proof
  show "map_of (intervals s0) t = Some iv \<and> iv_index iv < length (iv_answer iv)
            \<and> on_tick t s0 = Inr r \<longrightarrow>
          messages (snd r) = Some (upd_msgs (iv_msg iv)
             (no_updates\<lparr>set_displayedAnswer := Some (take (iv_index iv + 1) (iv_answer iv))\<rparr>)
             (or_empty (messages s0)))"
    using on_tick_sets_slice by blast
next
  from typing_start [OF assms] obtain s1 where
    s1: "commit s = Inr s1" "typing (answer m) (length (displayedAnswer m)) s1" by blast
  from typing_fires_any [OF s1(2), of n] obtain s' where
    s': "fires n s1 = Inr s'"
      "typing (answer m) (min (length (displayedAnswer m) + n) (length (answer m))) s'" by blast
  from typing_shows [OF s'(2)] obtain m' where
    m': "last_message s' = Some m'" "answer m' = answer m"
    "displayedAnswer m' = take (min (length (displayedAnswer m) + n) (length (answer m))) (answer m)"
    by blast
  from m'(2,3) have "prefix (displayedAnswer m') (answer m')" by (simp add: take_is_prefix)
  moreover from s1(1) s'(1) have "animate n s = Inr s'" by (simp add: animate_def)
  ultimately show "\<exists>s' m'. animate n s = Inr s' \<and> last_message s' = Some m'
      \<and> answer m' = answer m \<and> prefix (displayedAnswer m') (answer m')"
    using m'(1,2) by blast
qed

theorem C9_witness:
  "last_message (showing ''hello'' ''he'' True) = Some (bot_msg ''hello'' ''he'' True)
   \<and> persisted (currentConversationId (showing ''hello'' ''he'' True)) (showing ''hello'' ''he'' True)
   \<and> single_timer (showing ''hello'' ''he'' True)
   \<and> prefix ''he'' ''hello''
   \<and> map_of (intervals typing_hello) 1 = Some \<lparr>iv_cur = None, iv_msg = ''bot-2'',
        iv_answer = ''hello'', iv_index = 2, iv_delay = 15\<rparr>
   \<and> on_tick 1 typing_hello = Inr (projr (on_tick 1 typing_hello))
   \<and> messages (snd (projr (on_tick 1 typing_hello))) =
        Some [user_message ''user-1'' ''hi'', bot_msg ''hello'' ''hel'' True]
   \<and> (\<exists>s' m'. animate 10 (showing ''hello'' ''he'' True) = Inr s' \<and> last_message s' = Some m'
         \<and> answer m' = ''hello'' \<and> prefix (displayedAnswer m') (answer m'))"
proof -
  let ?s = "showing ''hello'' ''he'' True" and ?m = "bot_msg ''hello'' ''he'' True"
  let ?iv = "\<lparr>iv_cur = None, iv_msg = ''bot-2'', iv_answer = ''hello'', iv_index = 2, iv_delay = 15\<rparr>"
  have h1: "last_message ?s = Some ?m"
    by (simp add: showing_def last_message_def)
  have h2: "role ?m = ''bot''" and h3: "isStreaming ?m"
    and h4: "prefix (displayedAnswer ?m) (answer ?m)" and h5: "displayedAnswer ?m \<noteq> answer ?m"
    by (simp_all add: bot_msg_def)
  have h6: "persisted (currentConversationId ?s) ?s"
    by (simp add: showing_def fresh_app_def persisted_def truthy_id_def)
  have h7: "single_timer ?s"
    by (simp add: showing_def fresh_app_def single_timer_def)
  have k1: "map_of (intervals typing_hello) 1 = Some ?iv" by code_simp
  have k2: "iv_index ?iv < length (iv_answer ?iv)" by simp
  have "\<not> isl (on_tick 1 typing_hello)" by code_simp
  then have k3: "on_tick 1 typing_hello = Inr (projr (on_tick 1 typing_hello))" by simp
  have k4: "messages typing_hello = Some [user_message ''user-1'' ''hi'', bot_msg ''hello'' ''he'' True]"
    by code_simp
  note th = C9_displayed_answer_stays_prefix [OF h1 h2 h3 h4 h5 h6 h7, of typing_hello 1 ?iv "projr (on_tick 1 typing_hello)" 10]
  from th k1 k2 k3 have a: "messages (snd (projr (on_tick 1 typing_hello))) =
      Some (upd_msgs ''bot-2'' (no_updates\<lparr>set_displayedAnswer := Some (take 3 ''hello'')\<rparr>)
             (or_empty (messages typing_hello)))"
    by simp
  have "upd_msgs ''bot-2'' (no_updates\<lparr>set_displayedAnswer := Some (take 3 ''hello'')\<rparr>)
             (or_empty (messages typing_hello)) =
        [user_message ''user-1'' ''hi'', bot_msg ''hello'' ''hel'' True]"
    by (simp add: k4 upd_msgs_def user_message_def bot_msg_def apply_updates_def no_updates_def
        overwrite_def)
  with a have a': "messages (snd (projr (on_tick 1 typing_hello))) =
      Some [user_message ''user-1'' ''hi'', bot_msg ''hello'' ''hel'' True]" by simp
  from th have b: "\<exists>s' m'. animate 10 ?s = Inr s' \<and> last_message s' = Some m'
         \<and> answer m' = ''hello'' \<and> prefix (displayedAnswer m') (answer m')"
    by (simp add: bot_msg_def)
  have p: "prefix ''he'' ''hello''" by simp
  from h1 h6 h7 p k1 k3 a' b show ?thesis by blast
qed

section \<open>The answer of a completed stream\<close>

text \<open>
  The effect and the ticks of the animation change what the messages display, and nothing
  else of them.
\<close>

lemma updateMessage_display_only:
  assumes "updateMessage cur i (no_updates\<lparr>set_displayedAnswer := Some x\<rparr>) s = Inr s'"
  shows "map undisplayed (or_empty (messages s')) = map undisplayed (or_empty (messages s))"
proof -
  have "undisplayed (apply_updates m (no_updates\<lparr>set_displayedAnswer := Some x\<rparr>)) = undisplayed m" for m
    by (simp add: undisplayed_def apply_updates_def no_updates_def overwrite_def)
  with assms show ?thesis
    by (auto simp: updateMessage_def o_def split: sum.splits if_splits cong: if_cong)
qed

lemma clear_typing_messages [simp]: "messages (clear_typing s) = messages s"
  by (simp add: clear_typing_def clearInterval_def split: option.splits)

lemma before_effect_messages [simp]: "messages (before_effect s) = messages s"
  by (simp add: before_effect_def)

lemma typing_effect_display_only:
  assumes "typing_effect s = Inr s'"
  shows "map undisplayed (or_empty (messages s')) = map undisplayed (or_empty (messages s))"
proof (cases "messages s")
  case None
  with assms show ?thesis
    unfolding typing_effect_def before_effect_def [symmetric] by (simp add: Let_def)
next
  case (Some msgs)
  let ?s0 = "before_effect s"
  let ?m = "last msgs"
  let ?idle = "Inr (?s0\<lparr>cleanup_pending := False\<rparr>) :: error + app"
  from Some have ms: "messages ?s0 = Some msgs" by simp
  show ?thesis
  proof (cases "msgs = [] \<or> role ?m \<noteq> ''bot''")
    case True
    with assms ms have "s' = ?s0\<lparr>cleanup_pending := False\<rparr>"
      unfolding typing_effect_def before_effect_def [symmetric]
      by (auto simp: Let_def split: if_splits)
    then show ?thesis by simp
  next
    case bot: False
    show ?thesis
    proof (cases "answer ?m \<noteq> [] \<and> displayedAnswer ?m \<noteq> answer ?m \<and> isStreaming ?m")
      case True
      with assms ms bot have "messages s' = messages (clear_typing ?s0)"
        unfolding typing_effect_def before_effect_def [symmetric]
        by (auto simp: Let_def setInterval_def)
      then show ?thesis by simp
    next
      case nostart: False
      show ?thesis
      proof (cases "\<not> isStreaming ?m \<and> answer ?m \<noteq> [] \<and> displayedAnswer ?m \<noteq> answer ?m")
        case False
        with assms ms bot nostart have "s' = ?s0\<lparr>cleanup_pending := False\<rparr>"
          unfolding typing_effect_def before_effect_def [symmetric] by (auto simp: Let_def)
        then show ?thesis by simp
      next
        case True
        with assms ms bot nostart obtain s1 where
          u: "updateMessage (currentConversationId ?s0) (msg_id ?m)
                 (no_updates\<lparr>set_displayedAnswer := Some (answer ?m)\<rparr>) ?s0 = Inr s1"
          and "s' = s1\<lparr>cleanup_pending := False\<rparr>"
          unfolding typing_effect_def before_effect_def [symmetric]
          by (auto simp: Let_def split: sum.splits)
        with updateMessage_display_only [OF u] show ?thesis by simp
      qed
    qed
  qed
qed

lemma commit_display_only:
  assumes "commit s = Inr s'"
  shows "map undisplayed (or_empty (messages s')) = map undisplayed (or_empty (messages s))"
proof -
  from assms obtain s1 where s1: "typing_effect s = Inr s1"
    and s': "s' = s1 \<or> typing_effect s1 = Inr s'"
    by (auto simp: commit_def split: sum.splits if_splits)
  from s' show ?thesis
  proof
    assume "s' = s1"
    with typing_effect_display_only [OF s1] show ?thesis by simp
  next
    assume "typing_effect s1 = Inr s'"
    from typing_effect_display_only [OF this] typing_effect_display_only [OF s1]
    show ?thesis by simp
  qed
qed

lemma on_tick_display_only:
  assumes "on_tick t s = Inr (u, s')"
  shows "map undisplayed (or_empty (messages s')) = map undisplayed (or_empty (messages s))"
proof (cases "map_of (intervals s) t")
  case None
  with assms show ?thesis by (simp add: on_tick_def)
next
  case (Some iv)
  show ?thesis
  proof (cases "iv_index iv < length (iv_answer iv)")
    case False
    with Some assms show ?thesis by (auto simp: on_tick_def)
  next
    case True
    with Some assms obtain s1 where
      u: "updateMessage (iv_cur iv) (iv_msg iv)
            (no_updates\<lparr>set_displayedAnswer := Some (js_slice (iv_answer iv) 0 (int (iv_index iv) + 1))\<rparr>) s
          = Inr s1"
      and "messages s' = messages s1"
      by (auto simp: on_tick_def Let_def split: sum.splits)
    with updateMessage_display_only [OF u] show ?thesis by simp
  qed
qed

lemma fire_display_only:
  assumes "fire s = Inr s'"
  shows "map undisplayed (or_empty (messages s')) = map undisplayed (or_empty (messages s))"
proof (cases "intervals s")
  case Nil
  with assms show ?thesis by (simp add: fire_def)
next
  case (Cons p rest)
  obtain t iv where p: "p = (t, iv)" by (cases p)
  with Cons assms have tk: "tick t s = Inr s'" by (simp add: fire_def)
  then obtain u s1 where o: "on_tick t s = Inr (u, s1)" and c: "s' = s1 \<or> commit s1 = Inr s'"
    by (auto simp: tick_def split: sum.splits if_splits)
  from c show ?thesis
  proof
    assume "s' = s1"
    with on_tick_display_only [OF o] show ?thesis by simp
  next
    assume "commit s1 = Inr s'"
    from commit_display_only [OF this] on_tick_display_only [OF o] show ?thesis by simp
  qed
qed

lemma fires_display_only:
  "fires n s = Inr s' \<Longrightarrow>
   map undisplayed (or_empty (messages s')) = map undisplayed (or_empty (messages s))"
proof (induction n arbitrary: s)
  case 0
  then show ?case by simp
next
  case (Suc n)
  then obtain s1 where f: "fire s = Inr s1" and r: "fires n s1 = Inr s'"
    by (auto split: sum.splits)
  from Suc.IH [OF r] fire_display_only [OF f] show ?case by simp
qed

lemma typing_effect_rests:
  assumes "last_message s = Some m" and "role m = ''bot''"
    and "answer m = [] \<or> displayedAnswer m = answer m"
  shows "typing_effect s = Inr ((before_effect s)\<lparr>cleanup_pending := False\<rparr>)"
proof -
  from last_message_SomeD [OF assms(1)] obtain msgs where
    ms: "messages s = Some msgs" "msgs \<noteq> []" "last msgs = m" by blast
  have fr: "messages (before_effect s) = messages s"
    by (simp_all add: before_effect_def clear_typing_def clearInterval_def split: option.splits)
  show ?thesis
    unfolding typing_effect_def before_effect_def [symmetric]
    using ms assms(2-3) fr by (auto simp add: Let_def)
qed

lemma commit_shows_answer:
  assumes "last_message s = Some m" and "role m = ''bot''" and "\<not> isStreaming m"
    and "persisted (currentConversationId s) s"
  shows "\<exists>s'. commit s = Inr s'
     \<and> last_message s' =
         Some (m\<lparr>displayedAnswer := (if answer m = [] then displayedAnswer m else answer m)\<rparr>)"
proof (cases "answer m = [] \<or> displayedAnswer m = answer m")
  case True
  from typing_effect_rests [OF assms(1,2) True]
  have te: "typing_effect s = Inr ((before_effect s)\<lparr>cleanup_pending := False\<rparr>)" .
  have "messages ((before_effect s)\<lparr>cleanup_pending := False\<rparr>) = messages s"
    by (simp add: before_effect_def clear_typing_def clearInterval_def split: option.splits)
  with te have "commit s = Inr ((before_effect s)\<lparr>cleanup_pending := False\<rparr>)"
    by (simp add: commit_def)
  moreover have "last_message ((before_effect s)\<lparr>cleanup_pending := False\<rparr>) = Some m"
    using assms(1) last_message_before_effect [of s] by (simp add: last_message_def)
  moreover from True have
    "m\<lparr>displayedAnswer := (if answer m = [] then displayedAnswer m else answer m)\<rparr> = m"
    by auto
  ultimately show ?thesis by simp
next
  case False
  then have a: "answer m \<noteq> []" and d: "displayedAnswer m \<noteq> answer m" by simp_all
  from typing_effect_snaps [OF assms(1,2) a d assms(3,4)] obtain s1 where
    s1: "typing_effect s = Inr s1" "last_message s1 = Some (m\<lparr>displayedAnswer := answer m\<rparr>)"
      "messages s1 \<noteq> messages s"
    by blast
  have "typing_effect s1 = Inr ((before_effect s1)\<lparr>cleanup_pending := False\<rparr>)"
    using typing_effect_rests [OF s1(2)] assms(2) by simp
  with s1(1,3) have "commit s = Inr ((before_effect s1)\<lparr>cleanup_pending := False\<rparr>)"
    by (simp add: commit_def)
  moreover have "last_message ((before_effect s1)\<lparr>cleanup_pending := False\<rparr>) =
      Some (m\<lparr>displayedAnswer := answer m\<rparr>)"
    using s1(2) last_message_before_effect [of s1] by (simp add: last_message_def)
  ultimately show ?thesis using a by simp
qed


lemma persisted_with_displayed [simp]:
  "persisted c (with_displayed d s) = persisted c s"
  "currentConversationId (with_displayed d s) = currentConversationId s"
  by (simp_all add: persisted_def with_displayed_def)




section \<open>Renders and ticks between the reads\<close>

text \<open>
  The state stays steady through every line the loop processes, every run of the effect and
  every tick, none of which throws.
\<close>

lemma process_line_intervals:
  "intervals (process_line P cur b s l) = intervals s"
proof (cases "prefix ''data: '' l")
  case False
  then show ?thesis by (simp add: process_line_def)
next
  case True
  show ?thesis
  proof (cases "P (drop 6 l)")
    case None
    with True show ?thesis by (simp add: process_line_def)
  next
    case (Some data)
    show ?thesis
    proof (cases "on_frame cur b data s")
      case (Inl e)
      with True Some show ?thesis by (simp add: process_line_def)
    next
      case (Inr s')
      then have pl: "process_line P cur b s l = s'"
        using True Some by (simp add: process_line_def)
      from on_frame_cases [OF Inr] updateMessage_keeps [of cur b _ s s'] show ?thesis
        unfolding pl by blast
    qed
  qed
qed

lemma persisted_same:
  "storage s' = storage s \<Longrightarrow> persisted c s' = persisted c s"
  by (simp add: persisted_def)

lemma steady_process_line:
  assumes "steady cur b s"
  shows "steady cur b (process_line P cur b s l)"
proof -
  let ?s' = "process_line P cur b s l"
  from assms have p: "persisted cur s" and e: "ends_with b s"
    and q: "persisted (currentConversationId s) s"
    and c: "truthy_id cur \<longrightarrow> currentConversationId s = cur"
    and i: "list_all (\<lambda>(k, iv). iv_cur iv = currentConversationId s) (intervals s)"
    by (simp_all add: steady_def)
  from process_line_keeps [OF p e, of P l] have p': "persisted cur ?s'" and e': "ends_with b ?s'"
    by simp_all
  from process_line_current [of P cur b s l]
  have c': "currentConversationId ?s' = currentConversationId s"
    and st: "\<not> truthy_id cur \<longrightarrow> storage ?s' = storage s" by simp_all
  have q': "persisted (currentConversationId ?s') ?s'"
  proof (cases "truthy_id cur")
    case True
    with c c' p' show ?thesis by simp
  next
    case False
    with st have "storage ?s' = storage s" by simp
    from persisted_same [OF this] q c' show ?thesis by simp
  qed
  from p' e' q' c c' i show ?thesis
    by (simp add: steady_def process_line_intervals)
qed

lemma steady_lines:
  "steady cur b s \<Longrightarrow> steady cur b (foldl (process_line P cur b) s ls)"
  by (induction ls arbitrary: s) (simp_all add: steady_process_line)

lemma steady_frame [simp]:
  "steady cur b (s\<lparr>cleanup_pending := x\<rparr>) = steady cur b s"
  by (simp add: steady_def persisted_def ends_with_def)

lemma list_all_filter: "list_all Q xs \<Longrightarrow> list_all Q (filter R xs)"
  by (induction xs) auto

lemma steady_clear_typing:
  "steady cur b s \<Longrightarrow> steady cur b (clear_typing s)"
  by (auto simp: steady_def persisted_def ends_with_def clear_typing_def clearInterval_def
      list_all_filter split: option.splits)

lemma steady_before_effect:
  "steady cur b s \<Longrightarrow> steady cur b (before_effect s)"
  by (simp add: before_effect_def steady_clear_typing)

lemma typing_effect_other:
  assumes "last_message s = Some m" and "role m \<noteq> ''bot''"
  shows "typing_effect s = Inr ((before_effect s)\<lparr>cleanup_pending := False\<rparr>)"
proof -
  from last_message_SomeD [OF assms(1)] obtain msgs where
    ms: "messages s = Some msgs" "msgs \<noteq> []" "last msgs = m" by blast
  have fr: "messages (before_effect s) = messages s"
    by (simp_all add: before_effect_def clear_typing_def clearInterval_def split: option.splits)
  show ?thesis
    unfolding typing_effect_def before_effect_def [symmetric]
    using ms assms(2) fr by (auto simp add: Let_def)
qed

lemma ends_with_last:
  "ends_with b s \<Longrightarrow> \<exists>m. last_message s = Some m \<and> msg_id m = b"
  by (auto simp: ends_with_def last_message_def split: option.splits)

lemma last_ends_with:
  "last_message s = Some m \<Longrightarrow> msg_id m = b \<Longrightarrow> ends_with b s"
  by (auto simp: ends_with_def last_message_def split: option.splits if_splits)

lemma steady_typing_effect:
  assumes "steady cur b s"
  shows "\<exists>s'. typing_effect s = Inr s' \<and> steady cur b s'"
proof -
  from assms have e: "ends_with b s" and q: "persisted (currentConversationId s) s"
    and c: "truthy_id cur \<longrightarrow> currentConversationId s = cur"
    by (simp_all add: steady_def)
  from ends_with_last [OF e] obtain m where m: "last_message s = Some m" "msg_id m = b" by blast
  from steady_before_effect [OF assms] have sb: "steady cur b (before_effect s)" .
  have idle: "steady cur b ((before_effect s)\<lparr>cleanup_pending := False\<rparr>)"
    using sb by simp
  show ?thesis
  proof (cases "role m = ''bot''")
    case False
    from typing_effect_other [OF m(1) False] idle show ?thesis by simp
  next
    case bot: True
    show ?thesis
    proof (cases "answer m = [] \<or> displayedAnswer m = answer m")
      case True
      from typing_effect_rests [OF m(1) bot True] idle show ?thesis by simp
    next
      case False
      then have a: "answer m \<noteq> []" and d: "displayedAnswer m \<noteq> answer m" by simp_all
      show ?thesis
      proof (cases "isStreaming m")
        case True
        let ?s1 = "clear_typing (before_effect s)"
        from steady_clear_typing [OF sb] have s1: "steady cur b ?s1" .
        have cc: "currentConversationId ?s1 = currentConversationId s"
          by (simp add: before_effect_def clear_typing_def clearInterval_def split: option.splits)
        let ?s' = "?s1\<lparr>intervals := intervals ?s1 @
               [(next_interval s, \<lparr>iv_cur = currentConversationId s, iv_msg = msg_id m,
                  iv_answer = answer m, iv_index = length (displayedAnswer m), iv_delay = 15\<rparr>)],
             next_interval := Suc (next_interval s),
             typingIntervalRef := Some (next_interval s), cleanup_pending := True\<rparr>"
        from s1 cc have "steady cur b ?s'"
          by (simp add: steady_def persisted_def ends_with_def)
        with typing_effect_starts [OF m(1) bot a d True] show ?thesis by simp
      next
        case False
        from typing_effect_snaps [OF m(1) bot a d False q] obtain s' where
          s': "typing_effect s = Inr s'"
            "last_message s' = Some (m\<lparr>displayedAnswer := answer m\<rparr>)"
            "intervals s' = intervals (before_effect s)"
            "persisted (currentConversationId s') s'"
            "currentConversationId s' = currentConversationId s"
          by blast
        from s'(2) m(2) have e': "ends_with b s'" by (auto intro: last_ends_with)
        have p': "persisted cur s'"
        proof (cases "truthy_id cur")
          case True
          with c s'(4,5) show ?thesis by simp
        next
          case False
          then show ?thesis by (simp add: persisted_def)
        qed
        from sb have "list_all (\<lambda>(k, iv). iv_cur iv = currentConversationId (before_effect s))
            (intervals (before_effect s))"
          by (simp add: steady_def)
        moreover have "currentConversationId (before_effect s) = currentConversationId s"
          by (simp add: before_effect_def clear_typing_def clearInterval_def split: option.splits)
        ultimately have i': "list_all (\<lambda>(k, iv). iv_cur iv = currentConversationId s') (intervals s')"
          using s'(3,5) by simp
        from p' s'(4) c s'(5) i' e' have "steady cur b s'" by (simp add: steady_def)
        with s'(1) show ?thesis by blast
      qed
    qed
  qed
qed

lemma steady_commit:
  assumes "steady cur b s"
  shows "\<exists>s'. commit s = Inr s' \<and> steady cur b s'"
proof -
  from steady_typing_effect [OF assms] obtain s1 where
    s1: "typing_effect s = Inr s1" "steady cur b s1" by blast
  from steady_typing_effect [OF s1(2)] obtain s2 where
    s2: "typing_effect s1 = Inr s2" "steady cur b s2" by blast
  from s1 s2 show ?thesis by (auto simp: commit_def)
qed

lemma list_all_bump:
  "list_all (\<lambda>(k, iv). iv_cur iv = c) xs \<Longrightarrow>
   list_all (\<lambda>(k, iv). iv_cur iv = c)
     (map (\<lambda>(k, v). if k = t then (k, v\<lparr>iv_index := iv_index v + 1\<rparr>) else (k, v)) xs)"
  by (induction xs) (auto split: if_splits)

lemma steady_on_tick:
  assumes "steady cur b s"
  shows "\<exists>u s'. on_tick t s = Inr (u, s') \<and> steady cur b s'"
proof (cases "map_of (intervals s) t")
  case None
  with assms show ?thesis by (auto simp: on_tick_def)
next
  case (Some iv)
  then have "(t, iv) \<in> set (intervals s)" by (rule map_of_SomeD)
  with assms have cur: "iv_cur iv = currentConversationId s"
    by (auto simp: steady_def list_all_iff)
  show ?thesis
  proof (cases "iv_index iv < length (iv_answer iv)")
    case False
    with Some steady_clear_typing [OF assms] show ?thesis by (auto simp: on_tick_def)
  next
    case True
    let ?u = "no_updates\<lparr>set_displayedAnswer := Some (js_slice (iv_answer iv) 0 (int (iv_index iv) + 1))\<rparr>"
    from assms cur have q: "persisted (iv_cur iv) s" by (simp add: steady_def)
    from updateMessage_ok [OF q, of "iv_msg iv" ?u] obtain s1 where
      u: "updateMessage (iv_cur iv) (iv_msg iv) ?u s = Inr s1"
      and m1: "messages s1 = Some (upd_msgs (iv_msg iv) ?u (or_empty (messages s)))"
      and q1: "persisted (iv_cur iv) s1"
      and c1: "currentConversationId s1 = currentConversationId s"
      by blast
    from updateMessage_keeps [OF u] have i1: "intervals s1 = intervals s" by simp
    from assms have e: "ends_with b s" and c: "truthy_id cur \<longrightarrow> currentConversationId s = cur"
      and i: "list_all (\<lambda>(k, iv). iv_cur iv = currentConversationId s) (intervals s)"
      by (simp_all add: steady_def)
    from ends_with_upd [OF e m1] have e1: "ends_with b s1" .
    have p1: "persisted cur s1"
    proof (cases "truthy_id cur")
      case True
      with c cur q1 show ?thesis by simp
    next
      case False
      then show ?thesis by (simp add: persisted_def)
    qed
    let ?s' = "s1\<lparr>intervals :=
                        map (\<lambda>(k, v). if k = t then (k, v\<lparr>iv_index := iv_index v + 1\<rparr>) else (k, v))
                          (intervals s1)\<rparr>"
    from i i1 c1 have "list_all (\<lambda>(k, iv). iv_cur iv = currentConversationId s1)
        (map (\<lambda>(k, v). if k = t then (k, v\<lparr>iv_index := iv_index v + 1\<rparr>) else (k, v)) (intervals s1))"
      by (simp add: list_all_bump)
    with p1 q1 cur c c1 e1 have "steady cur b ?s'"
      by (simp add: steady_def persisted_def ends_with_def)
    moreover from Some True u have "on_tick t s = Inr (True, ?s')"
      by (simp add: on_tick_def Let_def)
    ultimately show ?thesis by blast
  qed
qed

lemma steady_fire:
  assumes "steady cur b s"
  shows "\<exists>s'. fire s = Inr s' \<and> steady cur b s'"
proof (cases "intervals s")
  case Nil
  with assms show ?thesis by (simp add: fire_def)
next
  case (Cons p rest)
  obtain t iv where p: "p = (t, iv)" by (cases p)
  from steady_on_tick [OF assms, of t] obtain u s1 where
    o: "on_tick t s = Inr (u, s1)" and s1: "steady cur b s1" by blast
  from steady_commit [OF s1] obtain s2 where "commit s1 = Inr s2" "steady cur b s2" by blast
  with o s1 Cons p show ?thesis by (auto simp: fire_def tick_def)
qed

text \<open>
  Whatever renders and ticks happen between the reads, the messages are, but for what they
  display, those the frames of the lines give.
\<close>

lemma frames_read_append:
  "frames_read P (xs @ ys) = frames_read P xs @ frames_read P ys"
  by (simp add: frames_read_def)

lemma undisplayed_simps [simp]:
  "msg_id (undisplayed m) = msg_id m" "role (undisplayed m) = role m"
  "answer (undisplayed m) = answer m" "isStreaming (undisplayed m) = isStreaming m"
  "isThinking (undisplayed m) = isThinking m"
  by (simp_all add: undisplayed_def)

lemma undisplayed_frame:
  "undisplayed (apply_updates m (frame_updates f)) = apply_updates (undisplayed m) (frame_updates f)"
  by (cases f) (simp_all add: undisplayed_def apply_updates_def no_updates_def overwrite_def)

lemma undisplayed_frames:
  "undisplayed (apply_frames m fs) = apply_frames (undisplayed m) fs"
  by (induction fs arbitrary: m) (simp_all add: apply_frames_def undisplayed_frame)

lemma undisplayed_apply:
  assumes "map undisplayed xs = map undisplayed ys"
  shows "map undisplayed (map (\<lambda>m. if msg_id m = b then apply_frames m fs else m) xs) =
         map undisplayed (map (\<lambda>m. if msg_id m = b then apply_frames m fs else m) ys)"
proof -
  have k: "map undisplayed (map (\<lambda>m. if msg_id m = b then apply_frames m fs else m) zs) =
        map (\<lambda>m. if msg_id m = b then apply_frames m fs else m) (map undisplayed zs)" for zs
    by (induction zs) (simp_all add: undisplayed_frames)
  show ?thesis by (simp only: k assms)
qed

lemma apply_frames_append:
  "apply_frames m (fs @ gs) = apply_frames (apply_frames m fs) gs"
  by (simp add: apply_frames_def)

lemma apply_frames_twice:
  "map (\<lambda>m. if msg_id m = b then apply_frames m gs else m)
     (map (\<lambda>m. if msg_id m = b then apply_frames m fs else m) xs) =
   map (\<lambda>m. if msg_id m = b then apply_frames m (fs @ gs) else m) xs"
  by (induction xs) (simp_all add: apply_frames_append)

lemma steady_messages:
  "steady cur b s \<Longrightarrow> \<exists>ms. messages s = Some ms"
  by (auto simp: steady_def ends_with_def split: option.splits)

lemma happens_frames:
  assumes "steady cur b s" and "messages s = Some ms"
    and "map undisplayed ms = map undisplayed msgs0"
    and "frames_read P (concat (map split_lines (arrived hs))) = map Some fs"
  shows "\<exists>s' ms'. happens P cur b hs s = Inr s' \<and> steady cur b s' \<and> messages s' = Some ms'
     \<and> map undisplayed ms' =
         map undisplayed (map (\<lambda>m. if msg_id m = b then apply_frames m fs else m) msgs0)"
  using assms
proof (induction hs arbitrary: s ms msgs0 fs)
  case Nil
  then have "fs = []" by (simp add: frames_read_def)
  with Nil show ?case by (simp add: apply_frames_def cong: if_cong)
next
  case (Cons h hs)
  show ?case
  proof (cases h)
    case (Arrives chunk)
    with Cons.prems(4) have
      "frames_read P (split_lines chunk) @ frames_read P (concat (map split_lines (arrived hs))) =
       map Some fs"
      by (simp add: frames_read_append)
    then obtain fs1 fs2 where fs: "fs = fs1 @ fs2"
      and f1: "frames_read P (split_lines chunk) = map Some fs1"
      and f2: "frames_read P (concat (map split_lines (arrived hs))) = map Some fs2"
      by (auto simp: append_eq_map_conv)
    let ?s1 = "foldl (process_line P cur b) s (split_lines chunk)"
    let ?g = "\<lambda>m. if msg_id m = b then apply_frames m fs1 else m"
    from Cons.prems(1) have p: "persisted cur s" by (simp add: steady_def)
    from foldl_process_typed [OF f1 p Cons.prems(2), of b]
    have m1: "messages ?s1 = Some (map ?g ms)" by simp
    from steady_lines [OF Cons.prems(1)] have st1: "steady cur b ?s1" .
    from undisplayed_apply [OF Cons.prems(3)]
    have u1: "map undisplayed (map ?g ms) = map undisplayed (map ?g msgs0)" .
    from Cons.IH [OF st1 m1 u1 f2] obtain s' ms' where
      r: "happens P cur b hs ?s1 = Inr s'" "steady cur b s'" "messages s' = Some ms'"
      and u: "map undisplayed ms' =
         map undisplayed (map (\<lambda>m. if msg_id m = b then apply_frames m fs2 else m) (map ?g msgs0))"
      by blast
    from u have "map undisplayed ms' =
         map undisplayed (map (\<lambda>m. if msg_id m = b then apply_frames m fs else m) msgs0)"
      by (simp only: apply_frames_twice fs)
    moreover from Arrives r(1) have "happens P cur b (h # hs) s = Inr s'" by simp
    ultimately show ?thesis using r(2,3) by blast
  next
    case Renders
    from steady_commit [OF Cons.prems(1)] obtain s1 where
      c: "commit s = Inr s1" and st1: "steady cur b s1" by blast
    from steady_messages [OF st1] obtain ms1 where m1: "messages s1 = Some ms1" ..
    from commit_display_only [OF c] m1 Cons.prems(2,3)
    have u1: "map undisplayed ms1 = map undisplayed msgs0" by simp
    from Renders Cons.prems(4) have f: "frames_read P (concat (map split_lines (arrived hs))) = map Some fs"
      by simp
    from Cons.IH [OF st1 m1 u1 f] Renders c show ?thesis by simp
  next
    case Fires
    from steady_fire [OF Cons.prems(1)] obtain s1 where
      c: "fire s = Inr s1" and st1: "steady cur b s1" by blast
    from steady_messages [OF st1] obtain ms1 where m1: "messages s1 = Some ms1" ..
    from fire_display_only [OF c] m1 Cons.prems(2,3)
    have u1: "map undisplayed ms1 = map undisplayed msgs0" by simp
    from Fires Cons.prems(4) have f: "frames_read P (concat (map split_lines (arrived hs))) = map Some fs"
      by simp
    from Cons.IH [OF st1 m1 u1 f] Fires c show ?thesis by simp
  qed
qed

lemma createConversation_intervals:
  "createConversation n now t s = Inr (c, s') \<Longrightarrow> intervals s' = intervals s"
  by (auto simp: createConversation_def Let_def split: sum.splits prod.splits)

lemma addMessage_intervals:
  "addMessage cur n k now msg s = Inr s' \<Longrightarrow> intervals s' = intervals s"
  by (auto simp: addMessage_def Let_def dest: createConversation_intervals
      split: sum.splits prod.splits if_splits option.splits)

lemma single_timer_cleared:
  assumes "single_timer s"
  shows "intervals (clear_typing s) = []"
proof (cases "typingIntervalRef s")
  case None
  with assms have "list_all (\<lambda>(k, iv). False) (intervals s)" by (simp add: single_timer_def)
  then have "intervals s = []" by (cases "intervals s") auto
  with None show ?thesis by (simp add: clear_typing_def)
next
  case (Some t)
  with assms have "list_all (\<lambda>(k, iv). t = k) (intervals s)" by (simp add: single_timer_def)
  then have "filter (\<lambda>(k, iv). k \<noteq> t) (intervals s) = []"
    by (auto simp: filter_empty_conv list_all_iff)
  with Some show ?thesis by (simp add: clear_typing_def clearInterval_def)
qed

lemma happens_append:
  "happens P cur b (hs @ hs') s =
     (case happens P cur b hs s of Inl e \<Rightarrow> Inl e | Inr s1 \<Rightarrow> happens P cur b hs' s1)"
proof (induction hs arbitrary: s)
  case Nil
  then show ?case by simp
next
  case (Cons h hs)
  then show ?case by (cases h) (simp_all split: sum.splits)
qed

lemma sendMessage_intervals:
  assumes "sendMessage P loading cur pf txt (Response True []) s = Inr s'"
    and "trim txt \<noteq> []" and "\<not> loading"
  shows "intervals s' = intervals (clear_typing s)"
proof -
  let ?s0 = "clear_typing s"
  from assms obtain s1 where
    s1: "(if \<not> truthy_id cur
          then map_sum id snd (createConversation (id1 pf) (iso_now pf) ''New Chat'' ?s0)
          else Inr ?s0) = Inr s1"
    by (cases "if \<not> truthy_id cur
          then map_sum id snd (createConversation (id1 pf) (iso_now pf) ''New Chat'' ?s0)
          else Inr ?s0") (simp_all add: sendMessage_def Let_def)
  have i1: "intervals s1 = intervals ?s0"
  proof (cases "truthy_id cur")
    case True
    with s1 show ?thesis by simp
  next
    case False
    with s1 obtain c where "createConversation (id1 pf) (iso_now pf) ''New Chat'' ?s0 = Inr (c, s1)"
      by (cases "createConversation (id1 pf) (iso_now pf) ''New Chat'' ?s0") auto
    then show ?thesis by (rule createConversation_intervals)
  qed
  from assms s1 obtain s2 where
    s2: "addMessage cur (id2 pf) [] (iso_now pf) (userMessage pf txt) s1 = Inr s2"
    by (cases "addMessage cur (id2 pf) [] (iso_now pf) (userMessage pf txt) s1")
      (simp_all add: sendMessage_def Let_def)
  from assms s1 s2 obtain s4 where
    s4: "addMessage cur (id3 pf) [] (iso_now pf) (botMessage pf) (s2\<lparr>isLoading := True\<rparr>) = Inr s4"
    by (cases "addMessage cur (id3 pf) [] (iso_now pf) (botMessage pf) (s2\<lparr>isLoading := True\<rparr>)")
      (simp_all add: sendMessage_def Let_def)
  from assms s1 s2 s4 have "s' = s4\<lparr>isLoading := False\<rparr>"
    by (simp add: sendMessage_def Let_def)
  with addMessage_intervals [OF s2] addMessage_intervals [OF s4] i1 show ?thesis by simp
qed

lemma sendMessage_awaits:
  assumes "trim txt \<noteq> []" and "\<not> loading" and "can_add cur s"
    and "truthy_id cur \<longrightarrow> currentConversationId s = cur" and "single_timer s"
  shows "\<exists>s0 pre. sendMessage P loading cur pf txt (Response True []) s = Inr s0
     \<and> messages s0 = Some (pre @ [botMessage pf]) \<and> steady cur (''bot-'' @ bot_ms pf) s0"
proof -
  from sendMessage_begin [OF assms(1-4), of pf P "Response True []"] obtain s4 pre where
    m4: "messages s4 = Some (pre @ [botMessage pf])" and p4: "persisted cur s4"
    and q4: "persisted (currentConversationId s4) s4"
    and c4: "truthy_id cur \<longrightarrow> currentConversationId s4 = cur"
    and run: "sendMessage P loading cur pf txt (Response True []) s =
              finish P cur pf (Response True []) s4"
    by blast
  let ?s0 = "s4\<lparr>isLoading := False\<rparr>"
  from run have r: "sendMessage P loading cur pf txt (Response True []) s = Inr ?s0"
    by (simp add: finish_def)
  from sendMessage_intervals [OF r assms(1,2)] single_timer_cleared [OF assms(5)]
  have i: "intervals ?s0 = []" by simp
  from m4 have e: "ends_with (''bot-'' @ bot_ms pf) ?s0"
    by (simp add: ends_with_def botMessage_def)
  from p4 q4 c4 i e have "steady cur (''bot-'' @ bot_ms pf) ?s0"
    by (simp add: steady_def persisted_def)
  with r m4 show ?thesis by auto
qed

text \<open>
  The result of C1 with the renders and ticks that happen while the stream is read, for
  every sequence \<open>hs\<close> in which the chunks of \<open>reads\<close> arrive: \<open>sendMessage\<close> reaches its loop
  (in the state it returns when the stream is empty), everything that happens returns, and
  after the render that follows the last read the bot message has the answer
  \<open>answer_text\<close>, is neither thinking nor streaming, and displays \<open>answer_text\<close> when that is
  not empty.
\<close>

lemma answer_whatever_happens:
  assumes "trim txt \<noteq> []" and "\<not> isLoading s" and "can_add (currentConversationId s) s"
    and "single_timer s"
    and "ReadThrows \<notin> set reads" and "uncut reads" and "arrived hs = chunks_of reads"
    and "frames_read P (split_lines (stream_text reads)) = map Some (fs @ [Done])"
    and "last_text fs = Some answer_text"
  shows "\<exists>s0. sendMessage P (isLoading s) (currentConversationId s) pf txt (Response True []) s
           = Inr s0
     \<and> (\<exists>s' m. happens P (currentConversationId s) (''bot-'' @ bot_ms pf) (hs @ [Renders]) s0
                 = Inr s'
          \<and> last_message s' = Some m \<and> msg_id m = ''bot-'' @ bot_ms pf
          \<and> answer m = answer_text \<and> \<not> isThinking m \<and> \<not> isStreaming m
          \<and> displayText m = answer_text
          \<and> (answer_text \<noteq> [] \<longrightarrow> displayedAnswer m = answer_text))"
proof -
  let ?b = "''bot-'' @ bot_ms pf"
  let ?cur = "currentConversationId s"
  have "truthy_id ?cur \<longrightarrow> currentConversationId s = ?cur" by simp
  from sendMessage_awaits [OF assms(1-3) this assms(4), of P pf] obtain s0 pre where
    r: "sendMessage P (isLoading s) ?cur pf txt (Response True []) s = Inr s0"
    and m0: "messages s0 = Some (pre @ [botMessage pf])" and st0: "steady ?cur ?b s0"
    by blast
  from assms(6,8) have "frames_read P (all_lines reads) = map Some (fs @ [Done])"
    by (simp add: frames_uncut)
  with assms(7) have fr: "frames_read P (concat (map split_lines (arrived hs))) = map Some (fs @ [Done])"
    by (simp add: all_lines_def)
  let ?g = "\<lambda>m. if msg_id m = ?b then apply_frames m (fs @ [Done]) else m"
  from happens_frames [OF st0 m0 refl fr] obtain s5 ms5 where
    h5: "happens P ?cur ?b hs s0 = Inr s5" and st5: "steady ?cur ?b s5"
    and m5: "messages s5 = Some ms5"
    and u5: "map undisplayed ms5 = map undisplayed (map ?g (pre @ [botMessage pf]))"
    by blast
  let ?m = "apply_frames (botMessage pf) (fs @ [Done])"
  from u5 have ne: "ms5 \<noteq> []" by auto
  from u5 have "last (map undisplayed ms5) = last (map undisplayed (map ?g (pre @ [botMessage pf])))"
    by simp
  with ne have ul: "undisplayed (last ms5) = undisplayed ?m"
    by (simp add: last_map botMessage_def)
  from m5 ne have l5: "last_message s5 = Some (last ms5)" by (simp add: last_message_def)
  from assms(9) have "last_text (fs @ [Done]) = Some answer_text" by (simp add: last_text_Done)
  then have "answer ?m = answer_text" by (simp add: answer_apply_frames)
  with ul have ans: "answer (last ms5) = answer_text"
    by (metis undisplayed_simps(3))
  from ul have role: "role (last ms5) = ''bot''"
    by (metis undisplayed_simps(2) role_apply_frames botMessage_def message.select_convs(2))
  from ul have st: "\<not> isStreaming (last ms5)"
    by (metis undisplayed_simps(4) streaming_apply_frames_Done)
  from ul have th: "\<not> isThinking (last ms5)"
    by (metis undisplayed_simps(5) thinking_apply_frames_Done)
  from ul have id: "msg_id (last ms5) = ?b"
    by (metis undisplayed_simps(1) msg_id_apply_frames botMessage_def message.select_convs(1))
  from st5 have q5: "persisted (currentConversationId s5) s5" by (simp add: steady_def)
  from commit_shows_answer [OF l5 role st q5] obtain s' where
    c: "commit s5 = Inr s'"
    and l': "last_message s' = Some ((last ms5)\<lparr>displayedAnswer :=
        (if answer (last ms5) = [] then displayedAnswer (last ms5) else answer (last ms5))\<rparr>)"
    by blast
  let ?m' = "(last ms5)\<lparr>displayedAnswer :=
        (if answer (last ms5) = [] then displayedAnswer (last ms5) else answer (last ms5))\<rparr>"
  from h5 c have h: "happens P ?cur ?b (hs @ [Renders]) s0 = Inr s'"
    by (simp add: happens_append)
  have "msg_id ?m' = ?b" using id by simp
  moreover have "answer ?m' = answer_text" using ans by simp
  moreover have "\<not> isThinking ?m'" using th by simp
  moreover have "\<not> isStreaming ?m'" using st by simp
  moreover have "displayText ?m' = answer_text" using ans role by (simp add: displayText_def)
  moreover have "answer_text \<noteq> [] \<longrightarrow> displayedAnswer ?m' = answer_text" using ans by simp
  ultimately show ?thesis using r h l' by blast
qed

end
